theory Spec2Isabelle
  imports Complex_Main "HOL-Library.Sublist"
begin

section \<open>Viewport window: \<open>limitOptions\<close> (src/prompt/index.ts, lines 69-104)\<close>

text \<open>
  \<open>Array.prototype.slice(start, end)\<close>: negative indices count from the end, both
  indices are clamped to the array, and an empty range gives the empty array.
\<close>

definition js_slice :: "'a list \<Rightarrow> int \<Rightarrow> int \<Rightarrow> 'a list" where
  "js_slice xs start fin =
     (let len = int (length xs);
          k = (if start < 0 then max (len + start) 0 else min start len);
          final = (if fin < 0 then max (len + fin) 0 else min fin len)
      in take (nat (final - k)) (drop (nat k) xs))"

text \<open>
  \<open>outputMaxItems = Math.max(process.stdout.rows - 4, 0)\<close>; the terminal's row count is
  read at every call and is a parameter here.
\<close>

definition outputMaxItems :: "int \<Rightarrow> int" where
  "outputMaxItems rows = max (rows - 4) 0"

text \<open>
  \<open>maxItems = Math.min(outputMaxItems, Math.max(paramMaxItems, 5))\<close> where
  \<open>paramMaxItems = params.maxItems ?? Infinity\<close>. An absent \<open>params.maxItems\<close> is \<open>None\<close>;
  with \<open>Infinity\<close> the inner maximum is \<open>Infinity\<close> and the minimum is \<open>outputMaxItems\<close>.
\<close>

definition maxItems :: "int \<Rightarrow> int option \<Rightarrow> int" where
  "maxItems rows param =
     (case param of
        None \<Rightarrow> outputMaxItems rows
      | Some paramMaxItems \<Rightarrow> min (outputMaxItems rows) (max paramMaxItems 5))"

text \<open>
  The sliding window starts at 0 and is recomputed from the cursor at every call
  (the two branches of lines 80-87; with neither branch taken it stays 0).
\<close>

definition slidingWindowLocation :: "int \<Rightarrow> int \<Rightarrow> int \<Rightarrow> int" where
  "slidingWindowLocation m cursor len =
     (if cursor \<ge> 0 + m - 3 then max (min (cursor - m + 3) (len - m)) 0
      else if cursor < 0 + 2 then max (cursor - 2) 0
      else 0)"

definition shouldRenderTopEllipsis :: "int \<Rightarrow> int \<Rightarrow> int \<Rightarrow> bool" where
  "shouldRenderTopEllipsis m cursor len \<longleftrightarrow>
     m < len \<and> slidingWindowLocation m cursor len > 0"

definition shouldRenderBottomEllipsis :: "int \<Rightarrow> int \<Rightarrow> int \<Rightarrow> bool" where
  "shouldRenderBottomEllipsis m cursor len \<longleftrightarrow>
     m < len \<and> slidingWindowLocation m cursor len + m < len"

text \<open>
  \<open>limitOptions\<close> itself. The source returns strings: \<open>color.dim('...')\<close> for an ellipsis
  row and \<open>style(option, active)\<close> for every other row. Both are parameters here
  (\<open>dots\<close> and \<open>style\<close>), so the function is polymorphic in what a row is.
\<close>

definition limitOptions ::
  "'s \<Rightarrow> int \<Rightarrow> 'a list \<Rightarrow> int option \<Rightarrow> int \<Rightarrow> ('a \<Rightarrow> bool \<Rightarrow> 's) \<Rightarrow> 's list" where
  "limitOptions dots rows options param cursor style =
     (let m = maxItems rows param;
          len = int (length options);
          w = slidingWindowLocation m cursor len;
          arr = js_slice options w (w + m)
      in map (\<lambda>(i, option).
                let isTopLimit = (i = 0 \<and> shouldRenderTopEllipsis m cursor len);
                    isBottomLimit = (int i = int (length arr) - 1
                                      \<and> shouldRenderBottomEllipsis m cursor len)
                in if isTopLimit \<or> isBottomLimit then dots
                   else style option (int i + w = cursor))
             (List.enumerate 0 arr))"

text \<open>
  The rows with their kind kept: instantiating \<open>dots\<close> with \<open>Ellipsis\<close> and \<open>style\<close> with
  \<open>Styled\<close> shows which rows of the result are ellipsis markers and which are items.
\<close>

datatype 'a row = Ellipsis | Styled 'a bool

definition viewport :: "int \<Rightarrow> 'a list \<Rightarrow> int option \<Rightarrow> int \<Rightarrow> 'a row list" where
  "viewport rows options param cursor = limitOptions Ellipsis rows options param cursor Styled"


definition window :: "int \<Rightarrow> 'a list \<Rightarrow> int option \<Rightarrow> int \<Rightarrow> 'a list" where
  \<comment> \<open>The slice of line 96 written with \<open>take\<close> and \<open>drop\<close>; used in the proofs only.\<close>
  "window rows options param cursor =
     take (nat (maxItems rows param))
       (drop (nat (slidingWindowLocation (maxItems rows param) cursor (int (length options))))
          options)"


section \<open>JavaScript strings\<close>

text \<open>
  A JavaScript string is a sequence of UTF-16 code units and \<open>.length\<close> counts them.
  A code unit is a natural number here, so the box-drawing glyphs of the source
  (one code unit each) have length 1.
\<close>

type_synonym jsstring = "nat list"

definition js :: "string \<Rightarrow> jsstring" where
  \<comment> \<open>An ASCII literal of the source.\<close>
  "js cs = map of_char cs"

definition nl :: nat where
  "nl = 10"

text \<open>\<open>str.split('\n')\<close>: the pieces between the separators, always at least one.\<close>

fun split_nl :: "jsstring \<Rightarrow> jsstring list" where
  "split_nl [] = [[]]"
| "split_nl (c # cs) =
     (if c = nl then [] # split_nl cs
      else (c # hd (split_nl cs)) # tl (split_nl cs))"

text \<open>\<open>arr.join(sep)\<close>.\<close>

fun js_join :: "jsstring \<Rightarrow> jsstring list \<Rightarrow> jsstring" where
  "js_join sep [] = []"
| "js_join sep [x] = x"
| "js_join sep (x # y # ys) = x @ sep @ js_join sep (y # ys)"

text \<open>\<open>str.repeat(count)\<close> throws a RangeError for a negative count: \<open>None\<close> here.\<close>

definition js_repeat :: "jsstring \<Rightarrow> int \<Rightarrow> jsstring option" where
  "js_repeat str n = (if n < 0 then None else Some (concat (replicate (nat n) str)))"


section \<open>Text metrics: \<open>ansiRegex\<close> and \<open>strip\<close> (lines 621 and 865-872)\<close>

text \<open>
  The regular expressions of the source use character classes, sequence, alternation
  and the greedy quantifiers \<open>?\<close>, \<open>*\<close>, \<open>+\<close> and \<open>{m,n}\<close>; no captures are read, no
  flags but \<open>g\<close>. A class is a list of inclusive ranges of characters.
\<close>

datatype rx =
    Eps
  | Cls "(char \<times> char) list"
  | Seq rx rx
  | Alt rx rx
  | Opt rx
  | Star rx

definition in_cls :: "(char \<times> char) list \<Rightarrow> nat \<Rightarrow> bool" where
  "in_cls rs c = list_ex (\<lambda>(lo, hi). of_char lo \<le> c \<and> c \<le> of_char hi) rs"

text \<open>
  The backtracking matcher of ECMAScript, as the list of the remainders of the input
  after every way to match, in the order in which backtracking tries them: an earlier
  alternative first, one more iteration of a greedy quantifier before stopping. An
  iteration of \<open>?\<close> or \<open>*\<close> that consumes nothing is rejected, as RepeatMatcher does.
\<close>

function ms :: "rx \<Rightarrow> jsstring \<Rightarrow> jsstring list" where
  "ms Eps s = [s]"
| "ms (Cls rs) [] = []"
| "ms (Cls rs) (c # cs) = (if in_cls rs c then [cs] else [])"
| "ms (Seq a b) s = concat (map (ms b) (ms a s))"
| "ms (Alt a b) s = ms a s @ ms b s"
| "ms (Opt a) s = filter (\<lambda>r. length r < length s) (ms a s) @ [s]"
| "ms (Star a) s =
     concat (map (\<lambda>r. if length r < length s then ms (Star a) r else []) (ms a s)) @ [s]"
  by pat_completeness auto
termination
  by (relation "inv_image (less_than <*lex*> less_than) (\<lambda>(r, s). (size r, length s))") auto

text \<open>The equation of \<open>Star\<close> unfolds itself and is applied by hand only.\<close>

declare ms.simps(7) [simp del]

text \<open>\<open>a+\<close> is \<open>aa*\<close>; \<open>a{m,n}\<close> is \<open>m\<close> copies of \<open>a\<close> and up to \<open>n - m\<close> more, greedily.\<close>

definition Plus :: "rx \<Rightarrow> rx" where
  "Plus a = Seq a (Star a)"

fun upto_times :: "nat \<Rightarrow> rx \<Rightarrow> rx" where
  "upto_times 0 a = Eps"
| "upto_times (Suc n) a = Opt (Seq a (upto_times n a))"

fun times :: "nat \<Rightarrow> rx \<Rightarrow> rx \<Rightarrow> rx" where
  "times 0 a k = k"
| "times (Suc n) a k = Seq a (times n a k)"

definition Rep :: "nat \<Rightarrow> nat \<Rightarrow> rx \<Rightarrow> rx" where
  "Rep lo hi a = times lo a (upto_times (hi - lo) a)"

definition chars :: "string \<Rightarrow> (char \<times> char) list" where
  "chars cs = map (\<lambda>c. (c, c)) cs"

text \<open>The character classes of the pattern.\<close>

definition start_chars :: "(char \<times> char) list" where
  \<comment> \<open>\<open>[\u001B\u009B]\<close>\<close>
  "start_chars = [(CHR 0x1B, CHR 0x1B), (CHR 0x9B, CHR 0x9B)]"

definition prefix_chars :: "(char \<times> char) list" where
  \<comment> \<open>\<open>[[\]()#;?]\<close>\<close>
  "prefix_chars = chars ''[]()#;?''"

definition text_chars :: "(char \<times> char) list" where
  \<comment> \<open>\<open>[-a-zA-Z\d\/#&.:=?%@~_]\<close>\<close>
  "text_chars = chars ''-'' @ [(CHR ''a'', CHR ''z''), (CHR ''A'', CHR ''Z''),
                  (CHR ''0'', CHR ''9'')] @ chars ''/#&.:=?%@~_''"

definition alnum_chars :: "(char \<times> char) list" where
  \<comment> \<open>\<open>[a-zA-Z\d]\<close>\<close>
  "alnum_chars = [(CHR ''a'', CHR ''z''), (CHR ''A'', CHR ''Z''), (CHR ''0'', CHR ''9'')]"

definition digit_chars :: "(char \<times> char) list" where
  \<comment> \<open>\<open>\d\<close>\<close>
  "digit_chars = [(CHR ''0'', CHR ''9'')]"

definition semi_chars :: "(char \<times> char) list" where
  "semi_chars = chars '';''"

definition bel_chars :: "(char \<times> char) list" where
  \<comment> \<open>\<open>\u0007\<close>\<close>
  "bel_chars = [(CHR 0x07, CHR 0x07)]"

definition final_chars :: "(char \<times> char) list" where
  \<comment> \<open>\<open>[\dA-PR-TZcf-nq-uy=><~]\<close>\<close>
  "final_chars = [(CHR ''0'', CHR ''9''), (CHR ''A'', CHR ''P''), (CHR ''R'', CHR ''T'')]
                   @ chars ''Zc'' @ [(CHR ''f'', CHR ''n''), (CHR ''q'', CHR ''u'')]
                   @ chars ''y=><~''"

definition rx_bel_body :: rx where
  \<comment> \<open>\<open>(?:(?:;[-a-zA-Z\d\/#&.:=?%@~_]+)*|[a-zA-Z\d]+(?:;[-a-zA-Z\d\/#&.:=?%@~_]*)*)?\<close>\<close>
  "rx_bel_body =
     Opt (Alt (Star (Seq (Cls semi_chars) (Plus (Cls text_chars))))
              (Seq (Plus (Cls alnum_chars)) (Star (Seq (Cls semi_chars) (Star (Cls text_chars))))))"

definition rx_params :: rx where
  \<comment> \<open>\<open>(?:\d{1,4}(?:;\d{0,4})*)?\<close>\<close>
  "rx_params =
     Opt (Seq (Rep 1 4 (Cls digit_chars))
              (Star (Seq (Cls semi_chars) (Rep 0 4 (Cls digit_chars)))))"

definition rx_bel_terminated :: rx where
  \<comment> \<open>first element of \<open>pattern\<close>, after the prefix: \<open>(?:\<dots>\u0007)\<close>\<close>
  "rx_bel_terminated = Seq rx_bel_body (Cls bel_chars)"

definition rx_final_byte :: rx where
  \<comment> \<open>second element of \<open>pattern\<close>: \<open>(?:\<dots>[\dA-PR-TZcf-nq-uy=><~])\<close>\<close>
  "rx_final_byte = Seq rx_params (Cls final_chars)"

definition ansiRegex :: rx where
  \<comment> \<open>\<open>[\u001B\u009B][[\]()#;?]*(?:\<dots>|\<dots>)\<close>, the two elements joined by \<open>|\<close>\<close>
  "ansiRegex =
     Seq (Cls start_chars)
       (Seq (Star (Cls prefix_chars)) (Alt rx_bel_terminated rx_final_byte))"

text \<open>
  \<open>str.replace(re, '')\<close> with the \<open>g\<close> flag: at every position, from the left, the
  first match found there is deleted and the search goes on after it; where nothing
  matches (or the match is empty) the character is kept.
\<close>

function replace_all :: "rx \<Rightarrow> jsstring \<Rightarrow> jsstring" where
  "replace_all r [] = []"
| "replace_all r (c # cs) =
     (case ms r (c # cs) of
        [] \<Rightarrow> c # replace_all r cs
      | rest # _ \<Rightarrow>
          if length rest < length (c # cs) then replace_all r rest
          else c # replace_all r cs)"
  by pat_completeness auto
termination
  by (relation "measure (\<lambda>(r, s). length s)") auto

definition strip :: "jsstring \<Rightarrow> jsstring" where
  "strip str = replace_all ansiRegex str"


definition visibleLength :: "jsstring \<Rightarrow> int" where
  \<comment> \<open>\<open>strip(str).length\<close>, the visible length of the spec\<close>
  "visibleLength str = int (length (strip str))"

text \<open>
  Whether a character belongs to a class of the expression; a match consumes such
  characters only.
\<close>

fun rx_char :: "rx \<Rightarrow> nat \<Rightarrow> bool" where
  "rx_char Eps c = False"
| "rx_char (Cls rs) c = in_cls rs c"
| "rx_char (Seq a b) c = (rx_char a c \<or> rx_char b c)"
| "rx_char (Alt a b) c = (rx_char a c \<or> rx_char b c)"
| "rx_char (Opt a) c = rx_char a c"
| "rx_char (Star a) c = rx_char a c"

text \<open>
  \<open>firstly rx s r\<close>: the first way to match \<open>rx\<close> at the start of \<open>s\<close> leaves \<open>r\<close>.
  \<open>stops rs t\<close>: a run of characters of the class \<open>rs\<close> cannot go on into \<open>t\<close>.
\<close>

definition firstly :: "rx \<Rightarrow> jsstring \<Rightarrow> jsstring \<Rightarrow> bool" where
  "firstly rx s r \<longleftrightarrow> (\<exists>rest. ms rx s = r # rest)"

definition stops :: "(char \<times> char) list \<Rightarrow> jsstring \<Rightarrow> bool" where
  "stops rs t \<longleftrightarrow> t = [] \<or> \<not> in_cls rs (hd t)"

text \<open>
  The escape sequences the pattern is written for, as segments of a text:
  \<^item> \<open>Csi i pre gs f\<close>: the introducer \<open>i\<close> (ESC or U+009B), characters \<open>pre\<close> of the
    prefix class, the parameter groups \<open>gs\<close> separated by \<open>;\<close> (digits only; the first
    group of 1 to 4 digits, the others of 0 to 4), and a final character \<open>f\<close> of the
    final class that is not a digit;
  \<^item> \<open>Osc i pre w fs\<close>: the introducer, prefix characters, a non-empty alphanumeric
    word \<open>w\<close>, fields \<open>fs\<close> of the text class each after a \<open>;\<close>, and BEL;
  \<^item> \<open>Plain t\<close>: text without ESC, U+009B and BEL.
\<close>

fun params :: "jsstring list \<Rightarrow> jsstring" where
  "params [] = []"
| "params (g # gs) = g @ concat (map (\<lambda>h. 59 # h) gs)"

fun groups_ok :: "jsstring list \<Rightarrow> bool" where
  "groups_ok [] = True"
| "groups_ok (g # gs) =
     (g \<noteq> [] \<and> length g \<le> 4 \<and> list_all (in_cls digit_chars) g
      \<and> list_all (\<lambda>h. length h \<le> 4 \<and> list_all (in_cls digit_chars) h) gs)"

datatype segment =
    Plain jsstring
  | Csi nat jsstring "jsstring list" nat
  | Osc nat jsstring jsstring "jsstring list"

fun raw :: "segment \<Rightarrow> jsstring" where
  "raw (Plain t) = t"
| "raw (Csi i pre gs f) = i # pre @ params gs @ [f]"
| "raw (Osc i pre w fs) = i # pre @ w @ concat (map (\<lambda>h. 59 # h) fs) @ [0x07]"

fun visible :: "segment \<Rightarrow> jsstring" where
  "visible (Plain t) = t"
| "visible (Csi i pre gs f) = []"
| "visible (Osc i pre w fs) = []"

fun is_escape :: "segment \<Rightarrow> bool" where
  "is_escape (Plain t) = False"
| "is_escape (Csi i pre gs f) = True"
| "is_escape (Osc i pre w fs) = True"

fun supported :: "segment \<Rightarrow> bool" where
  "supported (Plain t) = list_all (\<lambda>c. c \<noteq> 0x1B \<and> c \<noteq> 0x9B \<and> c \<noteq> 0x07) t"
| "supported (Csi i pre gs f) =
     (in_cls start_chars i \<and> list_all (in_cls prefix_chars) pre \<and> groups_ok gs
      \<and> in_cls final_chars f \<and> \<not> in_cls digit_chars f)"
| "supported (Osc i pre w fs) =
     (in_cls start_chars i \<and> list_all (in_cls prefix_chars) pre
      \<and> w \<noteq> [] \<and> list_all (in_cls alnum_chars) w
      \<and> list_all (list_all (in_cls text_chars)) fs)"

text \<open>
  \<open>guarded s\<close>: the first of ESC, U+009B and BEL in \<open>s\<close>, if there is one, is not BEL.
\<close>

fun guarded :: "jsstring \<Rightarrow> bool" where
  "guarded [] = True"
| "guarded (c # cs) =
     (if c = 0x1B \<or> c = 0x9B then True else if c = 0x07 then False else guarded cs)"

text \<open>
  A text cut into pieces by a global replacement: a character that is kept, or a
  stretch that is deleted. \<open>original\<close> is the piece in the text, \<open>remaining\<close> what is
  left of it. \<open>matches rx m\<close>: the non-empty \<open>m\<close>, as a whole, is a match of \<open>rx\<close>.
\<close>

datatype piece = Kept nat | Deleted jsstring

fun original :: "piece \<Rightarrow> jsstring" where
  "original (Kept c) = [c]"
| "original (Deleted m) = m"

fun remaining :: "piece \<Rightarrow> jsstring" where
  "remaining (Kept c) = [c]"
| "remaining (Deleted m) = []"

definition matches :: "rx \<Rightarrow> jsstring \<Rightarrow> bool" where
  "matches rx m \<longleftrightarrow> m \<noteq> [] \<and> [] \<in> set (ms rx m)"

fun deletes :: "rx \<Rightarrow> piece \<Rightarrow> bool" where
  "deletes rx (Kept c) = True"
| "deletes rx (Deleted m) = matches rx m"

text \<open>
  Following the words of the claim about \<open>strip\<close>, "any CSI/OSC escape sequences", and
  not the source: the control sequence \<open>CSI P\<dots>P I\<dots>I F\<close> of ECMA-48 (parameter bytes
  0x30-0x3F, intermediate bytes 0x20-0x2F, a final byte 0x40-0x7E, after ESC [ or
  U+009B), and the operating system command \<open>ESC ] \<dots> ST\<close> (ST is ESC 0x5C) with its string of
  bytes 0x08-0x0D and 0x20-0x7E.
\<close>

definition csi_body :: "jsstring \<Rightarrow> bool" where
  "csi_body b =
     (case dropWhile (\<lambda>c. 0x20 \<le> c \<and> c \<le> 0x2F) (dropWhile (\<lambda>c. 0x30 \<le> c \<and> c \<le> 0x3F) b) of
        [f] \<Rightarrow> 0x40 \<le> f \<and> f \<le> 0x7E
      | _ \<Rightarrow> False)"

definition ecma48_csi :: "jsstring \<Rightarrow> bool" where
  "ecma48_csi s =
     (case s of
        [] \<Rightarrow> False
      | i # b \<Rightarrow>
          if i = 0x9B then csi_body b
          else i = 0x1B \<and> (case b of [] \<Rightarrow> False | k # b' \<Rightarrow> k = 0x5B \<and> csi_body b'))"

definition ecma48_osc :: "jsstring \<Rightarrow> bool" where
  "ecma48_osc s \<longleftrightarrow>
     4 \<le> length s \<and> take 2 s = [0x1B, 0x5D] \<and> drop (length s - 2) s = [0x1B, 0x5C]
     \<and> list_all (\<lambda>c. (0x08 \<le> c \<and> c \<le> 0x0D) \<or> (0x20 \<le> c \<and> c \<le> 0x7E))
          (take (length s - 4) (drop 2 s))"


section \<open>Glyphs and styling (lines 20-46)\<close>

text \<open>
  \<open>const s = (c, fallback) => (unicode ? c : fallback)\<close>, where \<open>unicode\<close> is decided
  once by \<open>isUnicodeSupported()\<close>; it is a parameter of every glyph here.
\<close>

definition s_glyph :: "bool \<Rightarrow> jsstring \<Rightarrow> jsstring \<Rightarrow> jsstring" where
  "s_glyph unicode c fallback = (if unicode then c else fallback)"

definition S_STEP_CANCEL :: "bool \<Rightarrow> jsstring" where
  "S_STEP_CANCEL u = s_glyph u [0x25A0] (js ''x'')"

definition S_STEP_ERROR :: "bool \<Rightarrow> jsstring" where
  "S_STEP_ERROR u = s_glyph u [0x25B2] (js ''x'')"

definition S_STEP_SUBMIT :: "bool \<Rightarrow> jsstring" where
  "S_STEP_SUBMIT u = s_glyph u [0x25C7] (js ''o'')"

definition S_BAR :: "bool \<Rightarrow> jsstring" where
  "S_BAR u = s_glyph u [0x2502] (js ''|'')"

definition S_BAR_H :: "bool \<Rightarrow> jsstring" where
  "S_BAR_H u = s_glyph u [0x2500] (js ''-'')"

definition S_CORNER_TOP_RIGHT :: "bool \<Rightarrow> jsstring" where
  "S_CORNER_TOP_RIGHT u = s_glyph u [0x256E] (js ''+'')"

definition S_CONNECT_LEFT :: "bool \<Rightarrow> jsstring" where
  "S_CONNECT_LEFT u = s_glyph u [0x251C] (js ''+'')"

definition S_CORNER_BOTTOM_RIGHT :: "bool \<Rightarrow> jsstring" where
  "S_CORNER_BOTTOM_RIGHT u = s_glyph u [0x256F] (js ''+'')"

definition S_SUCCESS :: "bool \<Rightarrow> jsstring" where
  "S_SUCCESS u = s_glyph u [0x25C6] (js ''*'')"

definition S_ERROR :: "bool \<Rightarrow> jsstring" where
  "S_ERROR u = s_glyph u [0x25A0] (js ''x'')"

text \<open>
  The styling functions of the \<open>picocolors\<close> package (\<open>color.gray\<close>, \<open>color.dim\<close>, ...)
  are not part of this repository: each is a function from text to text, and the
  whole set is a parameter.
\<close>

record colors =
  gray :: "jsstring \<Rightarrow> jsstring"
  dim :: "jsstring \<Rightarrow> jsstring"
  green :: "jsstring \<Rightarrow> jsstring"
  red :: "jsstring \<Rightarrow> jsstring"
  magenta :: "jsstring \<Rightarrow> jsstring"
  reset :: "jsstring \<Rightarrow> jsstring"

definition plain_colors :: colors where
  \<comment> \<open>what the package does when colours are disabled: every style is the identity\<close>
  "plain_colors = \<lparr>gray = (\<lambda>x. x), dim = (\<lambda>x. x), green = (\<lambda>x. x), red = (\<lambda>x. x),
                    magenta = (\<lambda>x. x), reset = (\<lambda>x. x)\<rparr>"


text \<open>
  What the published package does when colours are enabled. A style is
  \<open>formatter(open, close, replace = open)\<close>, with \<open>open\<close> and \<open>close\<close> the SGR sequences
  \<open>ESC [ n m\<close>: it puts \<open>open\<close> before the text and \<open>close\<close> after it, and inside the text
  it puts \<open>replace\<close> in the place of every \<open>close\<close>, so that a style closed by a nested
  one is opened again. The search for \<open>close\<close> is \<open>string.indexOf(close, open.length)\<close>
  and goes on after each occurrence: the first \<open>open.length\<close> characters of the text
  are not searched.
\<close>

definition sgr :: "string \<Rightarrow> jsstring" where
  "sgr n = 0x1B # js (''['' @ n @ ''m'')"

function replaceClose :: "jsstring \<Rightarrow> jsstring \<Rightarrow> jsstring \<Rightarrow> jsstring" where
  "replaceClose cl rp [] = []"
| "replaceClose cl rp (c # cs) =
     (if cl \<noteq> [] \<and> take (length cl) (c # cs) = cl
      then rp @ replaceClose cl rp (drop (length cl) (c # cs))
      else c # replaceClose cl rp cs)"
  by pat_completeness auto
termination
  by (relation "measure (\<lambda>(cl, rp, s). length s)") auto

definition formatter :: "jsstring \<Rightarrow> jsstring \<Rightarrow> jsstring \<Rightarrow> jsstring \<Rightarrow> jsstring" where
  "formatter opn cl rp input =
     opn @ take (length opn) input @ replaceClose cl rp (drop (length opn) input) @ cl"

definition sgr_colors :: colors where
  "sgr_colors =
     \<lparr>gray = formatter (sgr ''90'') (sgr ''39'') (sgr ''90''),
      dim = formatter (sgr ''2'') (sgr ''22'') (sgr ''22'' @ sgr ''2''),
      green = formatter (sgr ''32'') (sgr ''39'') (sgr ''32''),
      red = formatter (sgr ''31'') (sgr ''39'') (sgr ''31''),
      magenta = formatter (sgr ''35'') (sgr ''39'') (sgr ''35''),
      reset = formatter (sgr ''0'') (sgr ''0'') (sgr ''0'')\<rparr>"


section \<open>Box layout: \<open>buildBox\<close> (lines 622-646)\<close>

definition box_lines :: "jsstring \<Rightarrow> jsstring list" where
  \<comment> \<open>\<open>`\n${message}\n`.split('\n')\<close>\<close>
  "box_lines message = split_nl (nl # message @ [nl])"

definition box_len :: "jsstring \<Rightarrow> jsstring \<Rightarrow> int" where
  \<comment> \<open>\<open>len\<close>: the reduce of lines 627-630 keeps the largest stripped length\<close>
  "box_len message title =
     (let titleLen = int (length (strip title))
      in max (foldl (\<lambda>sum line. let line' = strip line
                               in if int (length line') > sum then int (length line') else sum)
                    0 (box_lines message))
             titleLen + 2)"

definition box_row :: "colors \<Rightarrow> bool \<Rightarrow> bool \<Rightarrow> int \<Rightarrow> jsstring \<Rightarrow> jsstring option" where
  \<comment> \<open>one body row, the callback of lines 635-639 on the line \<open>ln\<close>\<close>
  "box_row col u dimmed len line =
     (case js_repeat (js '' '') (len - int (length (strip line))) of
        None \<Rightarrow> None
      | Some pad \<Rightarrow>
          Some (gray col (S_BAR u) @ js ''  '' @ (if dimmed then dim col line else line) @ pad
                @ gray col (S_BAR u)))"

text \<open>
  \<open>buildBox\<close> writes one string to the output stream; the result here is that string,
  or \<open>None\<close> if a \<open>repeat\<close> throws.
\<close>

definition buildBox :: "colors \<Rightarrow> bool \<Rightarrow> jsstring \<Rightarrow> jsstring \<Rightarrow> bool \<Rightarrow> jsstring option" where
  "buildBox col u message title dimmed =
     (let lines = box_lines message;
          titleLen = int (length (strip title));
          len = box_len message title
      in case those (map (box_row col u dimmed len) lines) of
           None \<Rightarrow> None
         | Some rows \<Rightarrow>
            (case js_repeat (S_BAR_H u) (max (len - titleLen - 1) 1) of
               None \<Rightarrow> None
             | Some top_rule \<Rightarrow>
                (case js_repeat (S_BAR_H u) (len + 2) of
                   None \<Rightarrow> None
                 | Some bottom_rule \<Rightarrow>
                     Some (gray col (S_BAR u) @ [nl]
                           @ green col (S_STEP_SUBMIT u) @ js ''  '' @ reset col title @ js '' ''
                           @ gray col (top_rule @ S_CORNER_TOP_RIGHT u) @ [nl]
                           @ js_join [nl] rows @ [nl]
                           @ gray col (S_CONNECT_LEFT u @ bottom_rule @ S_CORNER_BOTTOM_RIGHT u)
                           @ [nl]))))"


definition box_fn :: "colors \<Rightarrow> bool \<Rightarrow> jsstring \<Rightarrow> jsstring \<Rightarrow> jsstring option" where
  "box_fn col u message title = buildBox col u message title False"


text \<open>\<open>note_fn\<close> and \<open>box_fn\<close> are the exported \<open>note\<close> and \<open>box\<close> (lines 648-651).\<close>


section \<open>The output stream\<close>

text \<open>
  What \<open>process.stdout.write\<close> receives, in order. The cursor and erase sequences come
  from the \<open>sisteransi\<close> package, which is not part of this repository; each call is
  kept as an event with its arguments (\<open>erase.down()\<close> is \<open>EraseDown None\<close>).
\<close>

datatype out =
    Write jsstring
  | CursorUp "int option"
  | CursorMove int int
  | EraseDown "int option"


section \<open>Live log: \<open>taskLog\<close> (lines 652-717)\<close>

record tasklog =
  output_buf :: jsstring
  frame :: jsstring
  stdout :: "out list"

definition BAR :: "colors \<Rightarrow> bool \<Rightarrow> jsstring" where
  "BAR col u = dim col (S_BAR u)"

definition ACTIVE :: "colors \<Rightarrow> bool \<Rightarrow> jsstring" where
  "ACTIVE col u = green col (S_STEP_SUBMIT u)"

definition SUCCESS :: "colors \<Rightarrow> bool \<Rightarrow> jsstring" where
  "SUCCESS col u = green col (S_SUCCESS u)"

definition ERROR :: "colors \<Rightarrow> bool \<Rightarrow> jsstring" where
  "ERROR col u = red col (S_ERROR u)"

text \<open>The constructor writes the heading (lines 665-666) and starts with empty buffers.\<close>

definition taskLog :: "colors \<Rightarrow> bool \<Rightarrow> jsstring \<Rightarrow> tasklog" where
  "taskLog col u title =
     \<lparr>output_buf = [], frame = [],
      stdout = [Write (BAR col u @ [nl]), Write (ACTIVE col u @ js ''  '' @ title @ [nl])]\<rparr>"

text \<open>
  \<open>Math.ceil(a / b)\<close> on the lengths and the column count. For \<open>b = 0\<close> the quotient
  is \<open>Infinity\<close> or \<open>NaN\<close> and so is every sum with it: \<open>None\<close>.
\<close>

definition ceil_div :: "int \<Rightarrow> int \<Rightarrow> int option" where
  "ceil_div a b = (if b = 0 then None else Some (- ((- a) div b)))"

definition frameHeight :: "int \<Rightarrow> jsstring \<Rightarrow> int option" where
  \<comment> \<open>the reduce of lines 675-679, from 0\<close>
  "frameHeight terminalWidth fr =
     foldl (\<lambda>height line.
              case (height, ceil_div (int (length line)) terminalWidth) of
                (Some h, Some k) \<Rightarrow> Some (h + k)
              | _ \<Rightarrow> None)
           (Some 0) (split_nl fr)"

definition clear :: "int \<Rightarrow> bool \<Rightarrow> tasklog \<Rightarrow> tasklog" where
  \<comment> \<open>\<open>columns\<close> is \<open>process.stdout.columns\<close>, read at the call\<close>
  "clear columns eraseTitle t =
     (if frame t = [] then t
      else let terminalWidth = columns;
               lines = map_option (\<lambda>h. h + (if eraseTitle then 1 else 0))
                         (frameHeight terminalWidth (frame t))
           in t\<lparr>stdout := stdout t @ [CursorUp lines, EraseDown None]\<rparr>)"

definition print :: "colors \<Rightarrow> bool \<Rightarrow> (jsstring \<Rightarrow> jsstring) option \<Rightarrow> int \<Rightarrow> tasklog \<Rightarrow> tasklog" where
  "print col u parser limit t =
     (let parsedOutput = (case parser of Some f \<Rightarrow> f (output_buf t) | None \<Rightarrow> output_buf t);
          all_lines = split_nl parsedOutput;
          lines = js_slice all_lines (- limit) (int (length all_lines));
          fr = foldl (\<lambda>fr line. fr @ BAR col u @ js ''  '' @ line @ [nl]) [] lines
      in t\<lparr>frame := fr, stdout := stdout t @ [Write (dim col fr)]\<rparr>)"

definition set_text ::
  "colors \<Rightarrow> bool \<Rightarrow> (jsstring \<Rightarrow> jsstring) option \<Rightarrow> int \<Rightarrow> jsstring \<Rightarrow> tasklog \<Rightarrow> tasklog" where
  \<comment> \<open>the setter \<open>text\<close> (lines 699-706)\<close>
  "set_text col u parser columns data t =
     (let t1 = clear columns False t;
          t2 = t1\<lparr>output_buf := output_buf t1 @ data\<rparr>
      in print col u parser 0 t2)"

definition fail ::
  "colors \<Rightarrow> bool \<Rightarrow> (jsstring \<Rightarrow> jsstring) option \<Rightarrow> int \<Rightarrow> jsstring \<Rightarrow> tasklog \<Rightarrow> tasklog" where
  "fail col u parser columns message t =
     (let t1 = clear columns True t;
          t2 = t1\<lparr>stdout := stdout t1 @ [Write (ERROR col u @ js ''  '' @ message @ [nl])]\<rparr>
      in print col u parser 0 t2)"

definition success :: "colors \<Rightarrow> bool \<Rightarrow> int \<Rightarrow> jsstring \<Rightarrow> tasklog \<Rightarrow> tasklog" where
  "success col u columns message t =
     (let t1 = clear columns True t
      in t1\<lparr>stdout := stdout t1 @ [Write (SUCCESS col u @ js ''  '' @ message @ [nl])]\<rparr>)"




section \<open>Frame clock and lifecycle guard: \<open>spinner\<close> (lines 772-861)\<close>

datatype event = UncaughtExceptionMonitor | UnhandledRejection | SIGINT | SIGTERM | Exit

datatype handler = ErrorEventHandler | SignalEventHandler | HandleExit

datatype js_error = TypeError

text \<open>
  The closure variables of one spinner (\<open>unblock\<close>, \<open>loop\<close>, \<open>isSpinnerActive\<close>,
  \<open>_message\<close>) and the part of the process it acts on: the running intervals, each
  with the \<open>frameIndex\<close> and \<open>dotsTimer\<close> its callback has captured, the listeners
  registered with \<open>process.on\<close>, and the output stream. \<open>dotsTimer\<close> moves in steps of
  0.125 and is counted in eighths.
\<close>

record spinner =
  unblock :: bool
  loop :: "nat option"
  isSpinnerActive :: bool
  message_var :: jsstring
  intervals :: "(nat \<times> nat \<times> nat) list"
  next_interval :: nat
  listeners :: "(event \<times> handler) list"
  input_blocked :: bool
  written :: "out list"

text \<open>
  Modelled from the spec: \<open>block\<close> of \<open>../core/index.js\<close> is absent from the sources.
  \<open>start\<close> acquires input blocking with it and keeps the function that releases it;
  \<open>unblock s\<close> says that the variable \<open>unblock\<close> holds that function, \<open>input_blocked\<close>
  that input is blocked.
\<close>

definition block :: "spinner \<Rightarrow> spinner" where
  "block s = s\<lparr>unblock := True, input_blocked := True\<rparr>"

definition call_unblock :: "spinner \<Rightarrow> js_error + spinner" where
  \<comment> \<open>\<open>unblock()\<close>: a TypeError while the variable is still undefined\<close>
  "call_unblock s = (if unblock s then Inr (s\<lparr>input_blocked := False\<rparr>) else Inl TypeError)"

definition frames :: "bool \<Rightarrow> jsstring list" where
  "frames u = (if u then [[0x25D2], [0x25D0], [0x25D3], [0x25D1]]
               else [[0x2022], js ''o'', js ''O'', js ''0''])"

definition initial_spinner :: spinner where
  "initial_spinner =
     \<lparr>unblock = False, loop = None, isSpinnerActive = False, message_var = [],
      intervals = [], next_interval = 0, listeners = [], input_blocked = False,
      written = []\<rparr>"

definition hooks :: "(event \<times> handler) list" where
  \<comment> \<open>in the order of \<open>registerHooks\<close>\<close>
  "hooks = [(UncaughtExceptionMonitor, ErrorEventHandler),
            (UnhandledRejection, ErrorEventHandler),
            (SIGINT, SignalEventHandler),
            (SIGTERM, SignalEventHandler),
            (Exit, HandleExit)]"

definition registerHooks :: "spinner \<Rightarrow> spinner" where
  \<comment> \<open>\<open>process.on\<close> appends the listener\<close>
  "registerHooks s = s\<lparr>listeners := listeners s @ hooks\<rparr>"

definition removeListener :: "(event \<times> handler) \<Rightarrow> (event \<times> handler) list \<Rightarrow> (event \<times> handler) list" where
  \<comment> \<open>\<open>process.removeListener\<close> removes the most recently added instance, if any\<close>
  "removeListener l ls = rev (remove1 l (rev ls))"

definition clearHooks :: "spinner \<Rightarrow> spinner" where
  "clearHooks s = s\<lparr>listeners := foldl (\<lambda>ls l. removeListener l ls) (listeners s) hooks\<rparr>"

definition strip_dots :: "jsstring \<Rightarrow> jsstring" where
  \<comment> \<open>\<open>msg.replace(/\.+$/, '')\<close>: the dots at the end of the text are removed\<close>
  "strip_dots msg = rev (dropWhile (\<lambda>c. c = of_char CHR ''.'') (rev msg))"

definition start :: "colors \<Rightarrow> bool \<Rightarrow> jsstring \<Rightarrow> spinner \<Rightarrow> spinner" where
  "start col u msg s =
     (let s1 = block (s\<lparr>isSpinnerActive := True\<rparr>);
          s2 = s1\<lparr>message_var := strip_dots msg,
                  written := written s1 @ [Write (gray col (S_BAR u) @ [nl])]\<rparr>;
          s3 = registerHooks s2;
          tid = next_interval s3
      in s3\<lparr>loop := Some tid, intervals := intervals s3 @ [(tid, 0, 0)],
             next_interval := tid + 1\<rparr>)"

text \<open>
  One run of the callback of the interval \<open>tid\<close> (lines 824-832). A cleared interval
  does not run any more.
\<close>

definition tick :: "colors \<Rightarrow> bool \<Rightarrow> nat \<Rightarrow> spinner \<Rightarrow> spinner" where
  "tick col u tid s =
     (case map_of (intervals s) tid of
        None \<Rightarrow> s
      | Some (frameIndex, dotsTimer) \<Rightarrow>
          let fr = magenta col (frames u ! frameIndex);
              loadingDots = take 3 (replicate (dotsTimer div 8) (of_char CHR ''.''));
              frameIndex' = (if frameIndex + 1 < length (frames u) then frameIndex + 1 else 0);
              dotsTimer' = (if dotsTimer < 8 * length (frames u) then dotsTimer + 1 else 0)
          in s\<lparr>written := written s @ [CursorMove (- 999) 0, EraseDown (Some 1),
                                         Write (fr @ js ''  '' @ message_var s @ loadingDots)],
                intervals := map (\<lambda>(i, st). if i = tid then (i, frameIndex', dotsTimer') else (i, st))
                               (intervals s)\<rparr>)"

definition clearInterval :: "nat option \<Rightarrow> spinner \<Rightarrow> spinner" where
  \<comment> \<open>\<open>clearInterval(undefined)\<close> does nothing\<close>
  "clearInterval h s =
     (case h of None \<Rightarrow> s
      | Some tid \<Rightarrow> s\<lparr>intervals := filter (\<lambda>(i, st). i \<noteq> tid) (intervals s)\<rparr>)"

definition step_glyph :: "colors \<Rightarrow> bool \<Rightarrow> int \<Rightarrow> jsstring" where
  \<comment> \<open>\<open>step\<close> of lines 839-844\<close>
  "step_glyph col u code =
     (if code = 0 then green col (S_STEP_SUBMIT u)
      else if code = 1 then red col (S_STEP_CANCEL u)
      else red col (S_STEP_ERROR u))"

definition stop :: "colors \<Rightarrow> bool \<Rightarrow> jsstring \<Rightarrow> int \<Rightarrow> spinner \<Rightarrow> js_error + spinner" where
  "stop col u msg code s =
     (let s1 = s\<lparr>message_var := msg, isSpinnerActive := False\<rparr>;
          s2 = clearInterval (loop s1) s1;
          step = step_glyph col u code;
          s3 = s2\<lparr>written := written s2 @ [CursorMove (- 999) 0, EraseDown (Some 1),
                                           Write (step @ js ''  '' @ message_var s2 @ [nl])]\<rparr>;
          s4 = clearHooks s3
      in call_unblock s4)"

definition message :: "jsstring \<Rightarrow> spinner \<Rightarrow> spinner" where
  "message msg s = s\<lparr>message_var := msg\<rparr>"

definition handleExit :: "colors \<Rightarrow> bool \<Rightarrow> int \<Rightarrow> spinner \<Rightarrow> js_error + spinner" where
  "handleExit col u code s =
     (let msg = (if code > 1 then js ''Something went wrong'' else js ''Canceled'')
      in if isSpinnerActive s then stop col u msg code s else Inr s)"

definition errorEventHandler :: "colors \<Rightarrow> bool \<Rightarrow> spinner \<Rightarrow> js_error + spinner" where
  "errorEventHandler col u s = handleExit col u 2 s"

definition signalEventHandler :: "colors \<Rightarrow> bool \<Rightarrow> spinner \<Rightarrow> js_error + spinner" where
  "signalEventHandler col u s = handleExit col u 1 s"

text \<open>
  The process firing an event: the listeners registered for it at that moment run in
  the order of their registration. \<open>arg\<close> is the argument the event passes, the exit
  code for \<open>exit\<close>; the error and signal handlers take no argument.
\<close>

fun call_handler :: "colors \<Rightarrow> bool \<Rightarrow> handler \<Rightarrow> int \<Rightarrow> spinner \<Rightarrow> js_error + spinner" where
  "call_handler col u ErrorEventHandler arg s = errorEventHandler col u s"
| "call_handler col u SignalEventHandler arg s = signalEventHandler col u s"
| "call_handler col u HandleExit arg s = handleExit col u arg s"

fun run_handlers :: "colors \<Rightarrow> bool \<Rightarrow> handler list \<Rightarrow> int \<Rightarrow> spinner \<Rightarrow> js_error + spinner" where
  "run_handlers col u [] arg s = Inr s"
| "run_handlers col u (h # hs) arg s =
     (case call_handler col u h arg s of
        Inl e \<Rightarrow> Inl e
      | Inr s' \<Rightarrow> run_handlers col u hs arg s')"

definition emit :: "colors \<Rightarrow> bool \<Rightarrow> event \<Rightarrow> int \<Rightarrow> spinner \<Rightarrow> js_error + spinner" where
  "emit col u ev arg s =
     run_handlers col u (map snd (filter (\<lambda>(e, h). e = ev) (listeners s))) arg s"


text \<open>
  A running spinner: \<open>start\<close> followed by any number of timer ticks and \<open>message\<close> calls.
\<close>

datatype action = Tick nat | Message jsstring

fun act :: "colors \<Rightarrow> bool \<Rightarrow> spinner \<Rightarrow> action \<Rightarrow> spinner" where
  "act col u s (Tick tid) = tick col u tid s"
| "act col u s (Message msg) = message msg s"

definition after_start :: "colors \<Rightarrow> bool \<Rightarrow> jsstring \<Rightarrow> action list \<Rightarrow> spinner \<Rightarrow> spinner" where
  "after_start col u msg acts s0 = foldl (act col u) (start col u msg s0) acts"

text \<open>
  The text \<open>handleExit\<close> chooses for a code, and the code each handler passes to it.
\<close>

definition exit_message :: "int \<Rightarrow> jsstring" where
  "exit_message code = (if code > 1 then js ''Something went wrong'' else js ''Canceled'')"

fun exit_code :: "handler \<Rightarrow> int \<Rightarrow> int" where
  "exit_code ErrorEventHandler arg = 2"
| "exit_code SignalEventHandler arg = 1"
| "exit_code HandleExit arg = arg"


section \<open>Properties of the viewport window\<close>

lemma outputMaxItems_nonneg: "0 \<le> outputMaxItems rows"
  by (simp add: outputMaxItems_def)

lemma maxItems_nonneg: "0 \<le> maxItems rows mx"
  by (cases mx) (simp_all add: maxItems_def outputMaxItems_def)

lemma slidingWindowLocation_nonneg: "0 \<le> slidingWindowLocation m c len"
  by (simp add: slidingWindowLocation_def)

lemma slidingWindowLocation_upper:
  "0 \<le> m \<Longrightarrow> slidingWindowLocation m c len \<le> max (len - m) 0"
  by (auto simp add: slidingWindowLocation_def)

lemma js_slice_window:
  assumes "0 \<le> w" "0 \<le> m"
  shows "js_slice xs w (w + m) = take (nat m) (drop (nat w) xs)"
proof (cases "w \<le> int (length xs)")
  case True
  with assms have "js_slice xs w (w + m)
      = take (nat (min (w + m) (int (length xs)) - w)) (drop (nat w) xs)"
    by (simp add: js_slice_def Let_def min_def)
  also have "\<dots> = take (nat m) (drop (nat w) xs)"
    using assms True by (cases "w + m \<le> int (length xs)") (simp_all add: min_def)
  finally show ?thesis .
next
  case False
  with assms show ?thesis by (simp add: js_slice_def Let_def min_def)
qed

lemma limitOptions_length:
  "length (limitOptions d rows opts mx c st) = length (window rows opts mx c)"
  by (simp add: limitOptions_def Let_def window_def js_slice_window
      maxItems_nonneg slidingWindowLocation_nonneg)

lemma limitOptions_nth:
  assumes "i < length (window rows opts mx c)"
  shows "limitOptions d rows opts mx c st ! i =
     (let m = maxItems rows mx; len = int (length opts);
          w = slidingWindowLocation m c len
      in if (i = 0 \<and> shouldRenderTopEllipsis m c len)
            \<or> (int i = int (length (window rows opts mx c)) - 1
                \<and> shouldRenderBottomEllipsis m c len)
         then d else st (window rows opts mx c ! i) (int i + w = c))"
  using assms
  by (simp add: limitOptions_def Let_def window_def js_slice_window
      maxItems_nonneg slidingWindowLocation_nonneg nth_enumerate_eq)

lemma window_length:
  "length (window rows opts mx c) =
     min (nat (maxItems rows mx))
         (length opts - nat (slidingWindowLocation (maxItems rows mx) c (int (length opts))))"
  by (simp add: window_def)

lemma viewport_length: "length (viewport rows opts mx c) = length (window rows opts mx c)"
  by (simp add: viewport_def limitOptions_length)

lemma viewport_nth_Ellipsis:
  assumes "i < length (window rows opts mx c)"
  shows "viewport rows opts mx c ! i = Ellipsis \<longleftrightarrow>
     (i = 0 \<and> shouldRenderTopEllipsis (maxItems rows mx) c (int (length opts)))
     \<or> (int i = int (length (window rows opts mx c)) - 1
         \<and> shouldRenderBottomEllipsis (maxItems rows mx) c (int (length opts)))"
  unfolding viewport_def limitOptions_nth[OF assms] Let_def by simp

text \<open>
  Claim C1, as amended. For a cursor inside the list, \<open>limitOptions\<close> returns at most
  \<open>maxItems\<close> rows, the effective maximum \<open>min (max (rows - 4) 0) (max requested 5)\<close>.
  When that maximum is at least 4 (a terminal of 8 rows or more), or when the whole
  list fits into it (whatever the terminal), the window contains the cursor,
  \<open>w \<le> c < w + maxItems\<close>, and the row at \<open>c - w\<close> is the cursor's item styled as
  active, not the ellipsis. In every other case (an effective maximum below 4 and a
  longer list) there is a cursor whose row is not shown.
\<close>

theorem limitOptions_cursor_row:
  "int (length (limitOptions dots rows opts mx c style)) \<le> maxItems rows mx
     \<and> (0 \<le> c \<and> c < int (length opts)
        \<and> (4 \<le> maxItems rows mx \<or> int (length opts) \<le> maxItems rows mx) \<longrightarrow>
          (let w = slidingWindowLocation (maxItems rows mx) c (int (length opts));
               res = limitOptions dots rows opts mx c style
           in w \<le> c \<and> c < w + maxItems rows mx \<and> nat (c - w) < length res
              \<and> res ! nat (c - w) = style (opts ! nat c) True))
     \<and> (\<not> (4 \<le> maxItems rows mx \<or> int (length opts) \<le> maxItems rows mx) \<longrightarrow>
          (\<exists>c'. 0 \<le> c' \<and> c' < int (length opts)
             \<and> (let w' = slidingWindowLocation (maxItems rows mx) c' (int (length opts))
                in \<not> (w' \<le> c' \<and> c' < w' + maxItems rows mx
                        \<and> viewport rows opts mx c' ! nat (c' - w') = Styled (opts ! nat c') True))))"
proof -
  define m where "m = maxItems rows mx"
  define len where "len = int (length opts)"
  define w where "w = slidingWindowLocation m c len"
  have m0: "0 \<le> m" by (simp add: m_def maxItems_nonneg)
  have w0: "0 \<le> w" by (simp add: w_def slidingWindowLocation_nonneg)
  have wlen: "length (window rows opts mx c) = min (nat m) (length opts - nat w)"
    by (simp add: window_def m_def w_def len_def)
  have bound: "int (length (limitOptions dots rows opts mx c style)) \<le> m"
    using m0 by (simp add: limitOptions_length wlen)
  have vis: "w \<le> c \<and> c < w + m \<and> nat (c - w) < length (limitOptions dots rows opts mx c style)
       \<and> limitOptions dots rows opts mx c style ! nat (c - w) = style (opts ! nat c) True"
    if assms: "0 \<le> c" "c < int (length opts)" and m4: "4 \<le> m \<or> len \<le> m"
  proof -
    have range: "w \<le> c \<and> c < w + m \<and> w + m \<le> max len m
        \<and> (0 < w \<longrightarrow> w < c \<and> m < len) \<and> (w + m < len \<longrightarrow> c < w + m - 1)"
      using assms m4 unfolding w_def slidingWindowLocation_def len_def by auto
    have idx: "nat (c - w) < length (window rows opts mx c)"
      using range assms m0 w0 unfolding wlen len_def by auto
    have item: "window rows opts mx c ! nat (c - w) = opts ! nat c"
    proof -
      have sum: "nat w + nat (c - w) = nat c"
        using range w0 by arith
      have le: "nat w \<le> length opts"
        using range assms w0 by arith
      have "window rows opts mx c ! nat (c - w) = drop (nat w) opts ! nat (c - w)"
        using idx by (simp add: window_def m_def[symmetric] len_def[symmetric] w_def[symmetric])
      also have "\<dots> = opts ! (nat w + nat (c - w))"
        using le by simp
      finally show ?thesis by (simp only: sum)
    qed
    have notop: "\<not> (nat (c - w) = 0 \<and> shouldRenderTopEllipsis m c len)"
      using range w0 unfolding shouldRenderTopEllipsis_def w_def[symmetric] by auto
    have nobot: "\<not> (int (nat (c - w)) = int (length (window rows opts mx c)) - 1
                  \<and> shouldRenderBottomEllipsis m c len)"
    proof
      assume a: "int (nat (c - w)) = int (length (window rows opts mx c)) - 1
                  \<and> shouldRenderBottomEllipsis m c len"
      then have "w + m < len"
        by (simp add: shouldRenderBottomEllipsis_def w_def)
      with range have "c < w + m - 1" by simp
      moreover from \<open>w + m < len\<close> m0 w0 have "int (length (window rows opts mx c)) = m"
        unfolding wlen len_def by arith
      ultimately show False using a range by simp
    qed
    have "limitOptions dots rows opts mx c style ! nat (c - w) = style (opts ! nat c) True"
      unfolding limitOptions_nth[OF idx] Let_def m_def[symmetric] len_def[symmetric] w_def[symmetric]
      using range notop nobot item by auto
    with range idx show ?thesis by (simp add: limitOptions_length)
  qed
  have hidden: "\<exists>c'. 0 \<le> c' \<and> c' < len
             \<and> \<not> (slidingWindowLocation m c' len \<le> c' \<and> c' < slidingWindowLocation m c' len + m
                    \<and> viewport rows opts mx c' ! nat (c' - slidingWindowLocation m c' len)
                        = Styled (opts ! nat c') True)"
    if small: "\<not> (4 \<le> m \<or> len \<le> m)"
  proof (cases "m = 3")
    case True
    with small have l4: "4 \<le> len" by simp
    have w1: "slidingWindowLocation m 1 len = 1" "slidingWindowLocation 3 1 len = 1"
      using True l4 by (simp_all add: slidingWindowLocation_def)
    have l4': "4 \<le> length opts"
      using l4 by (simp add: len_def)
    have "0 < length (window rows opts mx 1)"
      using True l4' by (simp add: window_def m_def[symmetric] len_def[symmetric] w1)
    from viewport_nth_Ellipsis[OF this]
    have "viewport rows opts mx 1 ! 0 = Ellipsis"
      using True l4 l4'
      by (simp add: shouldRenderTopEllipsis_def m_def[symmetric] len_def[symmetric] w1)
    then have "\<not> (slidingWindowLocation m 1 len \<le> 1 \<and> 1 < slidingWindowLocation m 1 len + m
                    \<and> viewport rows opts mx 1 ! nat (1 - slidingWindowLocation m 1 len)
                        = Styled (opts ! nat 1) True)"
      by (simp add: w1)
    moreover have "(0::int) \<le> 1 \<and> 1 < len" using l4 by simp
    ultimately show ?thesis by blast
  next
    case False
    with small m0 have m2: "m \<le> 2" and l: "m < len" by simp_all
    have "0 < slidingWindowLocation m 0 len"
      using m2 l m0 by (simp add: slidingWindowLocation_def)
    then have "\<not> (slidingWindowLocation m 0 len \<le> 0 \<and> 0 < slidingWindowLocation m 0 len + m
                    \<and> viewport rows opts mx 0 ! nat (0 - slidingWindowLocation m 0 len)
                        = Styled (opts ! nat 0) True)"
      by simp
    moreover have "(0::int) \<le> 0 \<and> 0 < len" using l m0 by simp
    ultimately show ?thesis by blast
  qed
  show ?thesis
    using bound vis hidden
    unfolding Let_def m_def[symmetric] len_def[symmetric] w_def[symmetric] by blast
qed

theorem limitOptions_cursor_row_witness:
  "((0::int) \<le> 7 \<and> (7::int) < int (length [0..<10::nat]) \<and> 4 \<le> maxItems 12 None
    \<and> slidingWindowLocation (maxItems 12 None) 7 (int (length [0..<10::nat])) = 2
    \<and> limitOptions Ellipsis 12 [0..<10::nat] None 7 Styled ! 5 = Styled ([0..<10] ! 7) True)
   \<and> ((0::int) \<le> 1 \<and> (1::int) < int (length [0..<3::nat]) \<and> maxItems 7 None = 3
    \<and> int (length [0..<3::nat]) \<le> maxItems 7 None
    \<and> slidingWindowLocation (maxItems 7 None) 1 (int (length [0..<3::nat])) = 0
    \<and> limitOptions Ellipsis 7 [0..<3::nat] None 1 Styled ! 1 = Styled ([0..<3] ! 1) True)
   \<and> (maxItems 6 None = 2 \<and> \<not> int (length [0..<10::nat]) \<le> maxItems 6 None
    \<and> (\<exists>c'. 0 \<le> c' \<and> c' < int (length [0..<10::nat])
          \<and> \<not> (slidingWindowLocation 2 c' 10 \<le> c' \<and> c' < slidingWindowLocation 2 c' 10 + 2
                 \<and> viewport 6 [0..<10::nat] None c' ! nat (c' - slidingWindowLocation 2 c' 10)
                     = Styled ([0..<10] ! nat c') True)))"
proof -
  have h1: "(0::int) \<le> 7" by simp
  have h2: "(7::int) < int (length [0..<10::nat])" by simp
  have m: "maxItems 12 None = 8" by (simp add: maxItems_def outputMaxItems_def)
  have w: "slidingWindowLocation 8 7 10 = 2" by (simp add: slidingWindowLocation_def)
  have k1: "(0::int) \<le> 1" by simp
  have k2: "(1::int) < int (length [0..<3::nat])" by simp
  have m': "maxItems 7 None = 3" by (simp add: maxItems_def outputMaxItems_def)
  have w': "slidingWindowLocation 3 1 3 = 0" by (simp add: slidingWindowLocation_def)
  have m'': "maxItems 6 None = 2" by (simp add: maxItems_def outputMaxItems_def)
  have "\<exists>c'. 0 \<le> c' \<and> c' < int (length [0..<10::nat])
          \<and> \<not> (slidingWindowLocation 2 c' 10 \<le> c' \<and> c' < slidingWindowLocation 2 c' 10 + 2
                 \<and> viewport 6 [0..<10::nat] None c' ! nat (c' - slidingWindowLocation 2 c' 10)
                     = Styled ([0..<10] ! nat c') True)"
    using limitOptions_cursor_row[where dots = Ellipsis and rows = 6 and mx = None and style = Styled
        and opts = "[0..<10::nat]" and c = 7]
    by (simp add: m'' Let_def)
  then have small: "maxItems 6 None = 2 \<and> \<not> int (length [0..<10::nat]) \<le> maxItems 6 None
    \<and> (\<exists>c'. 0 \<le> c' \<and> c' < int (length [0..<10::nat])
          \<and> \<not> (slidingWindowLocation 2 c' 10 \<le> c' \<and> c' < slidingWindowLocation 2 c' 10 + 2
                 \<and> viewport 6 [0..<10::nat] None c' ! nat (c' - slidingWindowLocation 2 c' 10)
                     = Styled ([0..<10] ! nat c') True))"
    by (simp add: m'')
  have "(0::int) \<le> 7 \<and> (7::int) < int (length [0..<10::nat]) \<and> 4 \<le> maxItems 12 None
    \<and> slidingWindowLocation (maxItems 12 None) 7 (int (length [0..<10::nat])) = 2
    \<and> limitOptions Ellipsis 12 [0..<10::nat] None 7 Styled ! 5 = Styled ([0..<10] ! 7) True"
    using limitOptions_cursor_row[where dots = Ellipsis and rows = 12 and mx = None and style = Styled
        and opts = "[0..<10::nat]" and c = 7] h1 h2
    by (simp add: m w Let_def)
  moreover have "(0::int) \<le> 1 \<and> (1::int) < int (length [0..<3::nat]) \<and> maxItems 7 None = 3
    \<and> int (length [0..<3::nat]) \<le> maxItems 7 None
    \<and> slidingWindowLocation (maxItems 7 None) 1 (int (length [0..<3::nat])) = 0
    \<and> limitOptions Ellipsis 7 [0..<3::nat] None 1 Styled ! 1 = Styled ([0..<3] ! 1) True"
    using limitOptions_cursor_row[where dots = Ellipsis and rows = 7 and mx = None and style = Styled
        and opts = "[0..<3::nat]" and c = 1] k1 k2
    by (simp add: m' w' Let_def)
  ultimately show ?thesis using small by blast
qed

text \<open>
  The claim as stated fails on a small terminal: with 6 rows the effective maximum is
  2, and for ten options and the cursor on item 5 the window starts at 6, so both
  returned rows are ellipsis markers and none is the cursor's.
\<close>

theorem limitOptions_cursor_row_counterexample:
  "(0::int) \<le> 5 \<and> (5::int) < int (length [0..<10::nat])
   \<and> \<not> slidingWindowLocation (maxItems 6 None) 5 (int (length [0..<10::nat])) \<le> 5
   \<and> limitOptions Ellipsis 6 [0..<10::nat] None 5 Styled = [Ellipsis, Ellipsis]"
  by code_simp

text \<open>
  Claim C2, as amended. The effective maximum is the requested maximum raised to 5
  and then capped by the terminal's budget \<open>max (rows - 4) 0\<close>: it is at least 5
  exactly when the terminal has 9 rows or more, it is never negative and never above
  the budget, and a requested maximum below 5 counts as 5. The number of returned
  rows exceeds neither the effective maximum nor the length of the list.
\<close>

theorem maxItems_bounds:
  "(5 \<le> maxItems rows mx \<longleftrightarrow> 9 \<le> rows)
   \<and> 0 \<le> maxItems rows mx
   \<and> maxItems rows mx \<le> outputMaxItems rows
   \<and> (p \<le> 5 \<longrightarrow> maxItems rows (Some p) = maxItems rows (Some 5))
   \<and> int (length (limitOptions dots rows opts mx c style)) \<le> maxItems rows mx
   \<and> length (limitOptions dots rows opts mx c style) \<le> length opts"
proof -
  have a: "5 \<le> maxItems rows mx \<longleftrightarrow> 9 \<le> rows"
    by (cases mx) (auto simp add: maxItems_def outputMaxItems_def)
  have b: "maxItems rows mx \<le> outputMaxItems rows"
    by (cases mx) (simp_all add: maxItems_def)
  have c: "p \<le> 5 \<longrightarrow> maxItems rows (Some p) = maxItems rows (Some 5)"
    by (simp add: maxItems_def)
  have d: "int (length (limitOptions dots rows opts mx c style)) \<le> maxItems rows mx"
    using maxItems_nonneg[of rows mx] by (simp add: limitOptions_length window_length)
  have e: "length (limitOptions dots rows opts mx c style) \<le> length opts"
    by (simp add: limitOptions_length window_length)
  from a b c d e maxItems_nonneg[of rows mx] show ?thesis by blast
qed

theorem maxItems_bounds_witness:
  "(3::int) \<le> 5 \<and> maxItems 6 (Some 3) = maxItems 6 (Some 5) \<and> maxItems 6 (Some 3) = 2
   \<and> length (limitOptions Ellipsis 6 [0..<10::nat] (Some 3) 5 Styled) \<le> 2"
  using maxItems_bounds[where p = 3 and rows = 6 and mx = "Some 3" and dots = Ellipsis
      and opts = "[0..<10::nat]" and c = 5 and style = Styled]
  by (simp add: maxItems_def outputMaxItems_def)

text \<open>
  As stated the claim fails twice: a terminal of 6 rows gives an effective maximum
  of 2, below 5, and a terminal of 24 rows gives 20 for a list of three options.
\<close>

theorem maxItems_bounds_counterexample:
  "\<not> 5 \<le> maxItems 6 (Some 3) \<and> \<not> maxItems 24 None \<le> int (length [0..<3::nat])"
  by code_simp

text \<open>
  Claim C3, as amended. When the effective maximum is at least 2, the first returned
  row is an ellipsis marker exactly when the window start is positive, and the last
  returned row is one exactly when the window ends before the list does. Whenever
  the whole list fits into the effective maximum, no row is an ellipsis marker.
\<close>

theorem viewport_ellipsis:
  "(let m = maxItems rows mx; L = int (length opts);
        w = slidingWindowLocation m c L; res = viewport rows opts mx c
    in (2 \<le> m \<longrightarrow>
          ((res \<noteq> [] \<and> hd res = Ellipsis) \<longleftrightarrow> 0 < w)
        \<and> ((res \<noteq> [] \<and> last res = Ellipsis) \<longleftrightarrow> w + m < L))
     \<and> (L \<le> m \<longrightarrow> Ellipsis \<notin> set res))"
proof -
  define m where "m = maxItems rows mx"
  define L where "L = int (length opts)"
  define w where "w = slidingWindowLocation m c L"
  define res where "res = viewport rows opts mx c"
  define n where "n = length (window rows opts mx c)"
  have m0: "0 \<le> m" by (simp add: m_def maxItems_nonneg)
  have w0: "0 \<le> w" by (simp add: w_def slidingWindowLocation_nonneg)
  have wup: "w \<le> max (L - m) 0" using m0 by (simp add: w_def slidingWindowLocation_upper)
  have n_eq: "int n = min m (L - w)"
    using m0 w0 wup unfolding n_def window_length m_def[symmetric] L_def[symmetric] w_def[symmetric]
    by (auto simp: L_def)
  have len: "length res = n" by (simp add: res_def n_def viewport_length)
  have top: "shouldRenderTopEllipsis m c L \<longleftrightarrow> 0 < w"
    using wup by (auto simp: shouldRenderTopEllipsis_def w_def[symmetric])
  have bot: "shouldRenderBottomEllipsis m c L \<longleftrightarrow> w + m < L"
    using w0 by (auto simp: shouldRenderBottomEllipsis_def w_def[symmetric])
  have nth: "res ! i = Ellipsis \<longleftrightarrow> (i = 0 \<and> 0 < w) \<or> (int i = int n - 1 \<and> w + m < L)"
    if "i < n" for i
    using viewport_nth_Ellipsis[of i rows opts mx c] that
    unfolding n_def[symmetric] res_def[symmetric] m_def[symmetric] L_def[symmetric] top bot
    by simp
  have first: "(res \<noteq> [] \<and> hd res = Ellipsis) \<longleftrightarrow> 0 < w" if m2: "2 \<le> m"
  proof (cases "n = 0")
    case True
    with n_eq m2 wup w0 have "\<not> 0 < w" by auto
    with True len show ?thesis by simp
  next
    case False
    then have ne: "res \<noteq> []" using len by auto
    have "hd res = res ! 0" using ne by (simp add: hd_conv_nth)
    moreover have "res ! 0 = Ellipsis \<longleftrightarrow> 0 < w \<or> (int n = 1 \<and> w + m < L)"
      using nth[of 0] False by auto
    moreover have "\<not> (int n = 1 \<and> w + m < L)" using n_eq m2 by auto
    ultimately show ?thesis using ne by auto
  qed
  have final: "(res \<noteq> [] \<and> last res = Ellipsis) \<longleftrightarrow> w + m < L" if m2: "2 \<le> m"
  proof (cases "n = 0")
    case True
    with n_eq m2 w0 have "\<not> w + m < L" by auto
    with True len show ?thesis by simp
  next
    case False
    then have ne: "res \<noteq> []" using len by auto
    have "last res = res ! (n - 1)" using ne len by (simp add: last_conv_nth)
    moreover have "res ! (n - 1) = Ellipsis \<longleftrightarrow> (n = 1 \<and> 0 < w) \<or> w + m < L"
      using nth[of "n - 1"] False by auto
    moreover have "\<not> (n = 1 \<and> 0 < w)" using n_eq m2 wup by auto
    ultimately show ?thesis using ne by auto
  qed
  have fits: "Ellipsis \<notin> set res" if "L \<le> m"
  proof
    assume "Ellipsis \<in> set res"
    then obtain i where "i < n" and "res ! i = Ellipsis"
      using len by (auto simp: in_set_conv_nth)
    with nth[of i] have "0 < w \<or> w + m < L" by auto
    with that wup w0 show False by auto
  qed
  show ?thesis
    unfolding Let_def m_def[symmetric] L_def[symmetric] w_def[symmetric] res_def[symmetric]
    using first final fits by blast
qed

theorem viewport_ellipsis_witness:
  "2 \<le> maxItems 12 None
   \<and> hd (viewport 12 [0..<10::nat] None 7) = Ellipsis
   \<and> 0 < slidingWindowLocation (maxItems 12 None) 7 (int (length [0..<10::nat]))
   \<and> last (viewport 12 [0..<10::nat] None 7) \<noteq> Ellipsis
   \<and> int (length [0..<3::nat]) \<le> maxItems 12 None
   \<and> Ellipsis \<notin> set (viewport 12 [0..<3::nat] None 1)"
proof -
  have m: "maxItems 12 None = 8" by (simp add: maxItems_def outputMaxItems_def)
  have w: "slidingWindowLocation 8 7 10 = 2" by (simp add: slidingWindowLocation_def)
  show ?thesis
    using viewport_ellipsis[where rows = 12 and mx = None and opts = "[0..<10::nat]" and c = 7]
      viewport_ellipsis[where rows = 12 and mx = None and opts = "[0..<3::nat]" and c = 1]
    by (auto simp add: m w Let_def)
qed

text \<open>
  With an effective maximum of 1 (a terminal of 5 rows) the only row is first and
  last at once: for three options the window is the last item, the row is an
  ellipsis marker because the window start is positive, yet the window reaches the
  end of the list.
\<close>

theorem viewport_ellipsis_counterexample:
  "viewport 5 [0..<3::nat] None 0 = [Ellipsis]
   \<and> last (viewport 5 [0..<3::nat] None 0) = Ellipsis
   \<and> \<not> slidingWindowLocation (maxItems 5 None) 0 (int (length [0..<3::nat])) + maxItems 5 None
        < int (length [0..<3::nat])"
  by code_simp

text \<open>
  Claim C4. For any list of 100 options, \<open>maxItems = 10\<close>, a terminal of 50 rows and
  the cursor on item 50: the effective maximum is 10, the window starts at
  \<open>min (50 - 10 + 3) (100 - 10) = 43\<close>, and the ten returned rows begin and end with an
  ellipsis marker, with the cursor's item active in between.
\<close>

theorem viewport_scenario:
  assumes "length opts = 100"
  shows "maxItems 50 (Some 10) = 10
     \<and> slidingWindowLocation 10 50 100 = 43
     \<and> slidingWindowLocation 10 50 100 = min (50 - 10 + 3) (100 - 10)
     \<and> viewport 50 opts (Some 10) 50 =
         [Ellipsis, Styled (opts ! 44) False, Styled (opts ! 45) False,
          Styled (opts ! 46) False, Styled (opts ! 47) False, Styled (opts ! 48) False,
          Styled (opts ! 49) False, Styled (opts ! 50) True, Styled (opts ! 51) False,
          Ellipsis]"
proof -
  have m: "maxItems 50 (Some 10) = 10"
    by (simp add: maxItems_def outputMaxItems_def)
  have w: "slidingWindowLocation 10 50 100 = 43"
    by (simp add: slidingWindowLocation_def)
  have win: "window 50 opts (Some 10) 50 = take 10 (drop 43 opts)"
    using assms by (simp add: window_def m w)
  have n: "length (window 50 opts (Some 10) 50) = 10"
    using assms by (simp add: win)
  have top: "shouldRenderTopEllipsis 10 50 100" by (simp add: shouldRenderTopEllipsis_def w)
  have bot: "shouldRenderBottomEllipsis 10 50 100" by (simp add: shouldRenderBottomEllipsis_def w)
  have nth: "viewport 50 opts (Some 10) 50 ! i =
      (if i = 0 \<or> i = 9 then Ellipsis else Styled (opts ! (43 + i)) (i = 7))" if "i < 10" for i
  proof -
    have i: "i < length (window 50 opts (Some 10) 50)" using that n by simp
    have "window 50 opts (Some 10) 50 ! i = opts ! (43 + i)"
      using that assms by (simp add: win)
    then show ?thesis
      unfolding viewport_def limitOptions_nth[OF i] Let_def
      using that assms by (auto simp add: m w top bot n)
  qed
  have "viewport 50 opts (Some 10) 50 = map (\<lambda>i. viewport 50 opts (Some 10) 50 ! i) [0..<10]"
    by (metis map_nth viewport_length n)
  also have "\<dots> = map (\<lambda>i. if i = 0 \<or> i = 9 then Ellipsis else Styled (opts ! (43 + i)) (i = 7)) [0..<10]"
    by (rule map_cong) (auto simp: nth)
  also have "\<dots> = [Ellipsis, Styled (opts ! 44) False, Styled (opts ! 45) False,
          Styled (opts ! 46) False, Styled (opts ! 47) False, Styled (opts ! 48) False,
          Styled (opts ! 49) False, Styled (opts ! 50) True, Styled (opts ! 51) False,
          Ellipsis]"
    by (simp add: upt_rec)
  finally show ?thesis using m w by simp
qed

theorem viewport_scenario_witness:
  "length [0..<100::nat] = 100
   \<and> viewport 50 [0..<100::nat] (Some 10) 50 =
       [Ellipsis, Styled 44 False, Styled 45 False, Styled 46 False, Styled 47 False,
        Styled 48 False, Styled 49 False, Styled 50 True, Styled 51 False, Ellipsis]"
proof -
  have h: "length [0..<100::nat] = 100" by simp
  show ?thesis using viewport_scenario[OF h] by simp
qed


section \<open>Properties of \<open>strip\<close> on text without escape characters\<close>

lemma in_cls_start: "in_cls start_chars c \<longleftrightarrow> c = 0x1B \<or> c = 0x9B"
  by (auto simp add: in_cls_def start_chars_def)

lemma ansiRegex_no_intro: "c \<noteq> 0x1B \<Longrightarrow> c \<noteq> 0x9B \<Longrightarrow> ms ansiRegex (c # cs) = []"
  by (simp add: ansiRegex_def in_cls_start)

lemma strip_Nil: "strip [] = []"
  by (simp add: strip_def)

lemma strip_Cons_plain: "c \<noteq> 0x1B \<Longrightarrow> c \<noteq> 0x9B \<Longrightarrow> strip (c # cs) = c # strip cs"
  by (simp add: strip_def ansiRegex_no_intro)

lemma strip_plain: "\<forall>c\<in>set s. c \<noteq> 0x1B \<and> c \<noteq> 0x9B \<Longrightarrow> strip s = s"
  by (induction s) (simp_all add: strip_Nil strip_Cons_plain)


section \<open>Properties of the matcher\<close>

lemma ms_consumed:
  "r \<in> set (ms rx s) \<Longrightarrow> \<exists>w. s = w @ r \<and> (\<forall>c\<in>set w. rx_char rx c)"
proof (induction rx s arbitrary: r rule: ms.induct)
  case (1 s)
  then have "s = [] @ r \<and> (\<forall>c\<in>set []. rx_char Eps c)" by simp
  then show ?case by blast
next
  case (2 rs)
  then show ?case by simp
next
  case (3 rs c cs)
  then have "in_cls rs c" and "r = cs" by (simp_all split: if_splits)
  then have "c # cs = [c] @ r \<and> (\<forall>x\<in>set [c]. rx_char (Cls rs) x)" by simp
  then show ?case by blast
next
  case (4 a b s)
  from "4.prems" obtain r1 where r1: "r1 \<in> set (ms a s)" and r: "r \<in> set (ms b r1)"
    by auto
  from "4.IH"(1)[OF r1] obtain w1 where w1: "s = w1 @ r1" "\<forall>c\<in>set w1. rx_char a c" by blast
  from "4.IH"(2)[OF r1 r] obtain w2 where w2: "r1 = w2 @ r" "\<forall>c\<in>set w2. rx_char b c" by blast
  have "s = (w1 @ w2) @ r \<and> (\<forall>c\<in>set (w1 @ w2). rx_char (Seq a b) c)"
    using w1 w2 by auto
  then show ?case by blast
next
  case (5 a b s)
  from "5.prems" have "r \<in> set (ms a s) \<or> r \<in> set (ms b s)" by simp
  then show ?case
  proof
    assume "r \<in> set (ms a s)"
    from "5.IH"(1)[OF this] obtain w where "s = w @ r" "\<forall>c\<in>set w. rx_char a c" by blast
    then have "s = w @ r \<and> (\<forall>c\<in>set w. rx_char (Alt a b) c)" by simp
    then show ?thesis by blast
  next
    assume "r \<in> set (ms b s)"
    from "5.IH"(2)[OF this] obtain w where "s = w @ r" "\<forall>c\<in>set w. rx_char b c" by blast
    then have "s = w @ r \<and> (\<forall>c\<in>set w. rx_char (Alt a b) c)" by simp
    then show ?thesis by blast
  qed
next
  case (6 a s)
  from "6.prems" have "r \<in> set (ms a s) \<or> r = s" by auto
  then show ?case
  proof
    assume "r \<in> set (ms a s)"
    from "6.IH"[OF this] obtain w where "s = w @ r" "\<forall>c\<in>set w. rx_char a c" by blast
    then have "s = w @ r \<and> (\<forall>c\<in>set w. rx_char (Opt a) c)" by simp
    then show ?thesis by blast
  next
    assume "r = s"
    then have "s = [] @ r \<and> (\<forall>c\<in>set []. rx_char (Opt a) c)" by simp
    then show ?thesis by blast
  qed
next
  case (7 a s)
  from "7.prems" have "r = s \<or>
      (\<exists>r1\<in>set (ms a s). r \<in> set (if length r1 < length s then ms (Star a) r1 else []))"
    by (subst (asm) ms.simps(7)) auto
  then consider "r = s"
    | r1 where "r1 \<in> set (ms a s)" "length r1 < length s" "r \<in> set (ms (Star a) r1)"
    by (metis empty_iff empty_set)
  then show ?case
  proof cases
    case 1
    then have "s = [] @ r \<and> (\<forall>c\<in>set []. rx_char (Star a) c)" by simp
    then show ?thesis by blast
  next
    case 2
    from "7.IH"(1)[OF 2(1)] obtain w1 where w1: "s = w1 @ r1" "\<forall>c\<in>set w1. rx_char a c" by blast
    from "7.IH"(2)[OF 2] obtain w2 where w2: "r1 = w2 @ r" "\<forall>c\<in>set w2. rx_char (Star a) c"
      by blast
    have "s = (w1 @ w2) @ r \<and> (\<forall>c\<in>set (w1 @ w2). rx_char (Star a) c)"
      using w1 w2 by auto
    then show ?thesis by blast
  qed
qed

lemma ms_length: "r \<in> set (ms rx s) \<Longrightarrow> length r \<le> length s"
  by (drule ms_consumed) auto







section \<open>The first match of the pattern on an escape sequence\<close>

lemma firstly_Eps: "firstly Eps s s"
  by (simp add: firstly_def)

lemma firstly_Cls: "in_cls rs c \<Longrightarrow> firstly (Cls rs) (c # cs) cs"
  by (simp add: firstly_def)

lemma ms_Cls_fail: "s = [] \<or> \<not> in_cls rs (hd s) \<Longrightarrow> ms (Cls rs) s = []"
  by (cases s) auto

lemma ms_Seq_fail: "ms a s = [] \<Longrightarrow> ms (Seq a b) s = []"
  by simp

lemma firstly_Seq: "firstly a s r1 \<Longrightarrow> firstly b r1 r2 \<Longrightarrow> firstly (Seq a b) s r2"
  by (auto simp add: firstly_def)

lemma firstly_Alt1: "firstly a s r \<Longrightarrow> firstly (Alt a b) s r"
  by (auto simp add: firstly_def)

lemma firstly_Alt2: "ms a s = [] \<Longrightarrow> firstly b s r \<Longrightarrow> firstly (Alt a b) s r"
  by (auto simp add: firstly_def)

lemma firstly_Opt: "firstly a s r \<Longrightarrow> length r < length s \<Longrightarrow> firstly (Opt a) s r"
  by (auto simp add: firstly_def)

lemma firstly_Opt_skip: "ms a s = [] \<Longrightarrow> firstly (Opt a) s s"
  by (simp add: firstly_def)

lemma firstly_Star_step:
  "firstly a s r1 \<Longrightarrow> length r1 < length s \<Longrightarrow> firstly (Star a) r1 r2 \<Longrightarrow> firstly (Star a) s r2"
  unfolding firstly_def by (subst ms.simps(7)) auto

lemma firstly_Star_stop: "ms a s = [] \<Longrightarrow> firstly (Star a) s s"
  unfolding firstly_def by (subst ms.simps(7)) simp

lemma firstly_Plus:
  "firstly a s r1 \<Longrightarrow> firstly (Star a) r1 r2 \<Longrightarrow> firstly (Plus a) s r2"
  unfolding Plus_def by (rule firstly_Seq)

lemma firstly_Star_Cls:
  "list_all (in_cls rs) xs \<Longrightarrow> stops rs t \<Longrightarrow> firstly (Star (Cls rs)) (xs @ t) t"
proof (induction xs)
  case Nil
  then show ?case by (simp add: firstly_Star_stop ms_Cls_fail stops_def)
next
  case (Cons x xs)
  then have a: "firstly (Cls rs) ((x # xs) @ t) (xs @ t)" by (simp add: firstly_Cls)
  have b: "firstly (Star (Cls rs)) (xs @ t) t" using Cons by simp
  show ?case by (rule firstly_Star_step[OF a _ b]) simp
qed

lemma firstly_Plus_Cls:
  "xs \<noteq> [] \<Longrightarrow> list_all (in_cls rs) xs \<Longrightarrow> stops rs t \<Longrightarrow> firstly (Plus (Cls rs)) (xs @ t) t"
proof (cases xs)
  case Nil
  then show "xs \<noteq> [] \<Longrightarrow> ?thesis" by simp
next
  case (Cons x xs')
  assume "list_all (in_cls rs) xs" and st: "stops rs t"
  with Cons have x: "in_cls rs x" and xs': "list_all (in_cls rs) xs'" by simp_all
  have "firstly (Cls rs) (x # xs' @ t) (xs' @ t)" using x by (rule firstly_Cls)
  moreover have "firstly (Star (Cls rs)) (xs' @ t) t" using xs' st by (rule firstly_Star_Cls)
  ultimately show ?thesis unfolding Cons by (simp add: firstly_Plus)
qed

lemma firstly_upto_times:
  "list_all (in_cls rs) xs \<Longrightarrow> length xs \<le> n \<Longrightarrow> stops rs t
     \<Longrightarrow> firstly (upto_times n (Cls rs)) (xs @ t) t"
proof (induction n arbitrary: xs)
  case 0
  then show ?case by (simp add: firstly_Eps)
next
  case (Suc n)
  show ?case
  proof (cases xs)
    case Nil
    have "ms (Seq (Cls rs) (upto_times n (Cls rs))) t = []"
      using Suc.prems(3) by (intro ms_Seq_fail ms_Cls_fail) (simp add: stops_def)
    then show ?thesis using Nil by (simp add: firstly_Opt_skip)
  next
    case (Cons x xs')
    with Suc.prems have x: "in_cls rs x" and xs': "list_all (in_cls rs) xs'" "length xs' \<le> n"
      by simp_all
    have "firstly (Cls rs) (x # xs' @ t) (xs' @ t)" using x by (rule firstly_Cls)
    moreover have "firstly (upto_times n (Cls rs)) (xs' @ t) t"
      using xs' Suc.prems(3) by (rule Suc.IH)
    ultimately have "firstly (Seq (Cls rs) (upto_times n (Cls rs))) (x # xs' @ t) t"
      by (rule firstly_Seq)
    then show ?thesis unfolding Cons by (simp add: firstly_Opt)
  qed
qed

lemma firstly_Rep_0: 
  "list_all (in_cls rs) xs \<Longrightarrow> length xs \<le> n \<Longrightarrow> stops rs t
     \<Longrightarrow> firstly (Rep 0 n (Cls rs)) (xs @ t) t"
  by (simp add: Rep_def firstly_upto_times)

lemma firstly_Rep_1: 
  assumes "xs \<noteq> []" "list_all (in_cls rs) xs" "length xs \<le> Suc n" "stops rs t"
  shows "firstly (Rep 1 (Suc n) (Cls rs)) (xs @ t) t"
proof -
  from assms obtain x xs' where xs: "xs = x # xs'" by (cases xs) auto
  with assms have x: "in_cls rs x" and xs': "list_all (in_cls rs) xs'" "length xs' \<le> n"
    by simp_all
  have "firstly (Cls rs) (x # xs' @ t) (xs' @ t)" using x by (rule firstly_Cls)
  moreover have "firstly (upto_times n (Cls rs)) (xs' @ t) t"
    using xs' assms(4) by (rule firstly_upto_times)
  ultimately show ?thesis
    unfolding xs by (simp add: Rep_def firstly_Seq)
qed

lemma replace_all_first:
  "firstly rx (c # cs) rest \<Longrightarrow> length rest < length (c # cs)
     \<Longrightarrow> replace_all rx (c # cs) = replace_all rx rest"
  by (auto simp add: firstly_def)

lemma in_cls_semi: "in_cls semi_chars c \<longleftrightarrow> c = 59"
  by (auto simp add: in_cls_def semi_chars_def chars_def)

lemma in_cls_bel: "in_cls bel_chars c \<longleftrightarrow> c = 7"
  by (auto simp add: in_cls_def bel_chars_def)

lemma in_cls_prefix_cases:
  "in_cls prefix_chars c \<Longrightarrow> c = 91 \<or> c = 93 \<or> c = 40 \<or> c = 41 \<or> c = 35 \<or> c = 59 \<or> c = 63"
  by (simp add: in_cls_def prefix_chars_def chars_def) arith

lemma not_bel_body_intro: "\<not> rx_char rx_bel_body 0x1B" "\<not> rx_char rx_bel_body 0x9B"
  by (simp_all add: rx_bel_body_def Plus_def in_cls_def semi_chars_def text_chars_def
      alnum_chars_def chars_def)

lemma digit_not_prefix: "in_cls digit_chars c \<Longrightarrow> \<not> in_cls prefix_chars c"
proof
  assume d: "in_cls digit_chars c" and "in_cls prefix_chars c"
  from in_cls_prefix_cases[OF this(2)] d show False
    by (auto simp add: in_cls_def digit_chars_def)
qed

lemma alnum_not_prefix: "in_cls alnum_chars c \<Longrightarrow> \<not> in_cls prefix_chars c"
proof
  assume d: "in_cls alnum_chars c" and "in_cls prefix_chars c"
  from in_cls_prefix_cases[OF this(2)] d show False
    by (auto simp add: in_cls_def alnum_chars_def)
qed

lemma final_not_prefix: "in_cls final_chars c \<Longrightarrow> \<not> in_cls prefix_chars c"
proof
  assume d: "in_cls final_chars c" and "in_cls prefix_chars c"
  from in_cls_prefix_cases[OF this(2)] d show False
    by (auto simp add: in_cls_def final_chars_def chars_def)
qed

lemma not_in_cls_59:
  "\<not> in_cls digit_chars 59" "\<not> in_cls final_chars 59" "\<not> in_cls text_chars 59"
  "\<not> in_cls alnum_chars 59"
  by (simp_all add: in_cls_def digit_chars_def final_chars_def text_chars_def alnum_chars_def
      chars_def)

lemma not_in_cls_7:
  "\<not> in_cls digit_chars 7" "\<not> in_cls final_chars 7" "\<not> in_cls text_chars 7"
  "\<not> in_cls alnum_chars 7" "\<not> in_cls prefix_chars 7" "\<not> in_cls start_chars 7"
  by (simp_all add: in_cls_def digit_chars_def final_chars_def text_chars_def alnum_chars_def
      prefix_chars_def start_chars_def chars_def)

lemma guarded_split: "guarded (w @ 7 # r) \<Longrightarrow> \<exists>c\<in>set w. c = 0x1B \<or> c = 0x9B"
  by (induction w) (auto split: if_splits)

lemma guarded_append: "7 \<notin> set xs \<Longrightarrow> guarded t \<Longrightarrow> guarded (xs @ t)"
  by (induction xs) auto

lemma ms_bel_guarded:
  assumes "guarded s"
  shows "ms rx_bel_terminated s = []"
proof (rule ccontr)
  assume "ms rx_bel_terminated s \<noteq> []"
  then obtain r where "r \<in> set (ms rx_bel_terminated s)"
    by (cases "ms rx_bel_terminated s") auto
  then obtain r1 where r1: "r1 \<in> set (ms rx_bel_body s)" and r: "r \<in> set (ms (Cls bel_chars) r1)"
    by (auto simp add: rx_bel_terminated_def)
  from r have "r1 = 7 # r"
    by (cases r1) (auto simp add: in_cls_bel split: if_splits)
  moreover from ms_consumed[OF r1] obtain w where "s = w @ r1"
    and w: "\<forall>c\<in>set w. rx_char rx_bel_body c" by blast
  ultimately have "guarded (w @ 7 # r)" using assms by simp
  then obtain c where "c \<in> set w" and "c = 0x1B \<or> c = 0x9B"
    using guarded_split by blast
  with w show False
    using not_bel_body_intro by auto
qed

lemma firstly_groups:
  assumes "list_all (\<lambda>h. length h \<le> 4 \<and> list_all (in_cls digit_chars) h) gs"
    and "t \<noteq> []" and "\<not> in_cls digit_chars (hd t)" and "hd t \<noteq> 59"
  shows "firstly (Star (Seq (Cls semi_chars) (Rep 0 4 (Cls digit_chars))))
           (concat (map (\<lambda>h. 59 # h) gs) @ t) t"
  using assms(1)
proof (induction gs)
  case Nil
  have "ms (Seq (Cls semi_chars) (Rep 0 4 (Cls digit_chars))) t = []"
    using assms(2,4) by (intro ms_Seq_fail ms_Cls_fail) (simp add: in_cls_semi)
  then show ?case by (simp add: firstly_Star_stop)
next
  case (Cons g gs)
  define t' where "t' = concat (map (\<lambda>h. 59 # h) gs) @ t"
  have st: "stops digit_chars t'"
    using assms(2,3) not_in_cls_59(1) by (cases gs) (simp_all add: t'_def stops_def)
  have g: "list_all (in_cls digit_chars) g" "length g \<le> 4" using Cons.prems by simp_all
  have a: "firstly (Cls semi_chars) (59 # g @ t') (g @ t')"
    by (rule firstly_Cls) (simp add: in_cls_semi)
  have b: "firstly (Rep 0 4 (Cls digit_chars)) (g @ t') t'"
    using g st by (rule firstly_Rep_0)
  have c: "firstly (Star (Seq (Cls semi_chars) (Rep 0 4 (Cls digit_chars)))) t' t"
    unfolding t'_def using Cons by simp
  have "firstly (Star (Seq (Cls semi_chars) (Rep 0 4 (Cls digit_chars)))) (59 # g @ t') t"
    by (rule firstly_Star_step[OF firstly_Seq[OF a b] _ c]) simp
  then show ?case by (simp add: t'_def)
qed

lemma firstly_params:
  assumes "groups_ok gs" and "in_cls final_chars f" and "\<not> in_cls digit_chars f"
  shows "firstly rx_params (params gs @ f # rest) (f # rest)"
proof (cases gs)
  case Nil
  have "ms (Rep 1 4 (Cls digit_chars)) (f # rest) = []"
    using assms(3) by (simp add: Rep_def)
  then have "ms (Seq (Rep 1 4 (Cls digit_chars))
                 (Star (Seq (Cls semi_chars) (Rep 0 4 (Cls digit_chars))))) (f # rest) = []"
    by (rule ms_Seq_fail)
  then show ?thesis using Nil by (simp add: rx_params_def firstly_Opt_skip)
next
  case (Cons g gs')
  define t1 where "t1 = concat (map (\<lambda>h. 59 # h) gs') @ f # rest"
  have g: "g \<noteq> []" "list_all (in_cls digit_chars) g" "length g \<le> Suc 3"
    and gs': "list_all (\<lambda>h. length h \<le> 4 \<and> list_all (in_cls digit_chars) h) gs'"
    using assms(1) Cons by simp_all
  have f59: "f \<noteq> 59" using assms(2) not_in_cls_59(2) by auto
  have st: "stops digit_chars t1"
    using assms(3) not_in_cls_59(1) by (cases gs') (simp_all add: t1_def stops_def)
  have "firstly (Rep 1 (Suc 3) (Cls digit_chars)) (g @ t1) t1"
    using g st by (rule firstly_Rep_1)
  then have a: "firstly (Rep 1 4 (Cls digit_chars)) (g @ t1) t1" by simp
  have b: "firstly (Star (Seq (Cls semi_chars) (Rep 0 4 (Cls digit_chars)))) t1 (f # rest)"
    unfolding t1_def using gs' assms(3) f59 by (intro firstly_groups) simp_all
  have "firstly rx_params (g @ t1) (f # rest)"
    unfolding rx_params_def using g(1)
    by (intro firstly_Opt firstly_Seq[OF a b]) (simp add: t1_def)
  then show ?thesis using Cons by (simp add: t1_def)
qed

lemma params_no_bel: "groups_ok gs \<Longrightarrow> 7 \<notin> set (params gs)"
proof (cases gs)
  case Nil
  then show ?thesis by simp
next
  case (Cons g gs')
  assume "groups_ok gs"
  with Cons have "\<forall>c\<in>set g. in_cls digit_chars c"
    and "\<forall>h\<in>set gs'. \<forall>c\<in>set h. in_cls digit_chars c"
    by (auto simp add: list_all_iff)
  then show ?thesis
    using not_in_cls_7(1) Cons by auto
qed

lemma firstly_csi:
  assumes "supported (Csi i pre gs f)" and "guarded rest"
  shows "firstly ansiRegex (raw (Csi i pre gs f) @ rest) rest"
proof -
  define t where "t = params gs @ f # rest"
  from assms(1) have i: "in_cls start_chars i" and pre: "list_all (in_cls prefix_chars) pre"
    and gs: "groups_ok gs" and f: "in_cls final_chars f" "\<not> in_cls digit_chars f"
    by simp_all
  have hd_t: "in_cls digit_chars (hd t) \<or> hd t = f"
    using gs by (cases gs) (auto simp add: t_def neq_Nil_conv)
  have st: "stops prefix_chars t"
    using hd_t digit_not_prefix final_not_prefix[OF f(1)] by (auto simp add: stops_def)
  have "7 \<notin> set (params gs @ [f])"
    using params_no_bel[OF gs] f(1) not_in_cls_7(2) by auto
  then have "guarded ((params gs @ [f]) @ rest)" using assms(2) by (rule guarded_append)
  then have "guarded t" by (simp add: t_def)
  then have noA: "ms rx_bel_terminated t = []" by (rule ms_bel_guarded)
  have "firstly rx_params t (f # rest)"
    unfolding t_def using gs f by (rule firstly_params)
  moreover have "firstly (Cls final_chars) (f # rest) rest"
    using f(1) by (rule firstly_Cls)
  ultimately have "firstly rx_final_byte t rest"
    unfolding rx_final_byte_def by (rule firstly_Seq)
  with noA have alt: "firstly (Alt rx_bel_terminated rx_final_byte) t rest"
    by (rule firstly_Alt2)
  have "firstly (Star (Cls prefix_chars)) (pre @ t) t"
    using pre st by (rule firstly_Star_Cls)
  from firstly_Seq[OF this alt]
  have "firstly ansiRegex (i # pre @ t) rest"
    unfolding ansiRegex_def using i by (intro firstly_Seq[OF firstly_Cls])
  then show ?thesis by (simp add: t_def)
qed

lemma firstly_fields:
  assumes "list_all (list_all (in_cls text_chars)) fs"
  shows "firstly (Star (Seq (Cls semi_chars) (Star (Cls text_chars))))
           (concat (map (\<lambda>h. 59 # h) fs) @ 7 # rest) (7 # rest)"
  using assms
proof (induction fs)
  case Nil
  have "ms (Seq (Cls semi_chars) (Star (Cls text_chars))) (7 # rest) = []"
    by (intro ms_Seq_fail ms_Cls_fail) (simp add: in_cls_semi)
  then show ?case by (simp add: firstly_Star_stop)
next
  case (Cons h fs)
  define t' where "t' = concat (map (\<lambda>h. 59 # h) fs) @ 7 # rest"
  have st: "stops text_chars t'"
    using not_in_cls_59(3) not_in_cls_7(3) by (cases fs) (simp_all add: t'_def stops_def)
  have h: "list_all (in_cls text_chars) h" using Cons.prems by simp
  have a: "firstly (Cls semi_chars) (59 # h @ t') (h @ t')"
    by (rule firstly_Cls) (simp add: in_cls_semi)
  have b: "firstly (Star (Cls text_chars)) (h @ t') t'"
    using h st by (rule firstly_Star_Cls)
  have c: "firstly (Star (Seq (Cls semi_chars) (Star (Cls text_chars)))) t' (7 # rest)"
    unfolding t'_def using Cons by simp
  have "firstly (Star (Seq (Cls semi_chars) (Star (Cls text_chars)))) (59 # h @ t') (7 # rest)"
    by (rule firstly_Star_step[OF firstly_Seq[OF a b] _ c]) simp
  then show ?case by (simp add: t'_def)
qed

lemma firstly_bel_body:
  assumes "w \<noteq> []" and "list_all (in_cls alnum_chars) w"
    and "list_all (list_all (in_cls text_chars)) fs"
  shows "firstly rx_bel_body (w @ concat (map (\<lambda>h. 59 # h) fs) @ 7 # rest) (7 # rest)"
proof -
  define t' where "t' = concat (map (\<lambda>h. 59 # h) fs) @ 7 # rest"
  define s where "s = w @ t'"
  have hd_w: "in_cls alnum_chars (hd w)" using assms(1,2) by (cases w) simp_all
  have hd_s: "s \<noteq> []" "hd s = hd w" using assms(1) by (simp_all add: s_def)
  have "hd w \<noteq> 59" using hd_w not_in_cls_59(4) by auto
  then have "ms (Seq (Cls semi_chars) (Plus (Cls text_chars))) s = []"
    using hd_s by (intro ms_Seq_fail ms_Cls_fail) (simp add: in_cls_semi)
  then have x: "ms (Star (Seq (Cls semi_chars) (Plus (Cls text_chars)))) s = [s]"
    by (subst ms.simps(7)) simp
  have st: "stops alnum_chars t'"
    using not_in_cls_59(4) not_in_cls_7(4) by (cases fs) (simp_all add: t'_def stops_def)
  have "firstly (Plus (Cls alnum_chars)) (w @ t') t'"
    using assms(1,2) st by (rule firstly_Plus_Cls)
  moreover have "firstly (Star (Seq (Cls semi_chars) (Star (Cls text_chars)))) t' (7 # rest)"
    unfolding t'_def using assms(3) by (rule firstly_fields)
  ultimately have "firstly (Seq (Plus (Cls alnum_chars))
      (Star (Seq (Cls semi_chars) (Star (Cls text_chars))))) s (7 # rest)"
    unfolding s_def by (rule firstly_Seq)
  then obtain tl where y: "ms (Seq (Plus (Cls alnum_chars))
      (Star (Seq (Cls semi_chars) (Star (Cls text_chars))))) s = (7 # rest) # tl"
    by (auto simp add: firstly_def)
  have shorter: "length (7 # rest) < length s" using assms(1) by (simp add: s_def t'_def)
  have "ms rx_bel_body s = filter (\<lambda>r. length r < length s) ([s] @ (7 # rest) # tl) @ [s]"
    unfolding rx_bel_body_def ms.simps(5,6) x y ..
  also have "\<dots> = (7 # rest) # filter (\<lambda>r. length r < length s) tl @ [s]"
    using shorter by simp
  finally have "firstly rx_bel_body s (7 # rest)"
    by (simp add: firstly_def)
  then show ?thesis by (simp add: s_def t'_def)
qed

lemma firstly_osc:
  assumes "supported (Osc i pre w fs)"
  shows "firstly ansiRegex (raw (Osc i pre w fs) @ rest) rest"
proof -
  define t where "t = w @ concat (map (\<lambda>h. 59 # h) fs) @ 7 # rest"
  from assms have i: "in_cls start_chars i" and pre: "list_all (in_cls prefix_chars) pre"
    and w: "w \<noteq> []" "list_all (in_cls alnum_chars) w"
    and fs: "list_all (list_all (in_cls text_chars)) fs"
    by simp_all
  have "in_cls alnum_chars (hd t)" using w by (cases w) (simp_all add: t_def)
  then have st: "stops prefix_chars t" by (simp add: stops_def alnum_not_prefix)
  have "firstly rx_bel_body t (7 # rest)"
    unfolding t_def using w fs by (rule firstly_bel_body)
  moreover have "firstly (Cls bel_chars) (7 # rest) rest"
    by (rule firstly_Cls) (simp add: in_cls_bel)
  ultimately have "firstly rx_bel_terminated t rest"
    unfolding rx_bel_terminated_def by (rule firstly_Seq)
  then have alt: "firstly (Alt rx_bel_terminated rx_final_byte) t rest"
    by (rule firstly_Alt1)
  have "firstly (Star (Cls prefix_chars)) (pre @ t) t"
    using pre st by (rule firstly_Star_Cls)
  from firstly_Seq[OF this alt]
  have "firstly ansiRegex (i # pre @ t) rest"
    unfolding ansiRegex_def using i by (intro firstly_Seq[OF firstly_Cls])
  then show ?thesis by (simp add: t_def)
qed

lemma guarded_segments: "list_all supported segs \<Longrightarrow> guarded (concat (map raw segs))"
proof (induction segs)
  case Nil
  then show ?case by simp
next
  case (Cons seg segs)
  show ?case
  proof (cases seg)
    case (Plain t)
    with Cons have "7 \<notin> set t" by (auto simp add: list_all_iff)
    with Cons Plain show ?thesis by (simp add: guarded_append)
  next
    case (Csi i pre gs f)
    with Cons show ?thesis by (simp add: in_cls_start)
  next
    case (Osc i pre w fs)
    with Cons show ?thesis by (simp add: in_cls_start)
  qed
qed

lemma strip_plain_append:
  "\<forall>c\<in>set t. c \<noteq> 0x1B \<and> c \<noteq> 0x9B \<Longrightarrow> strip (t @ r) = t @ strip r"
  by (induction t) (simp_all add: strip_Cons_plain)

lemma strip_first:
  "firstly ansiRegex (c # cs) rest \<Longrightarrow> length rest < length (c # cs)
     \<Longrightarrow> strip (c # cs) = strip rest"
  unfolding strip_def by (rule replace_all_first)

lemma strip_supported:
  assumes "list_all supported segs"
  shows "strip (concat (map raw segs)) = concat (map visible segs)"
  using assms
proof (induction segs)
  case Nil
  then show ?case by (simp add: strip_Nil)
next
  case (Cons seg segs)
  define r where "r = concat (map raw segs)"
  have IH: "strip r = concat (map visible segs)"
    using Cons by (simp add: r_def)
  have gr: "guarded r" using Cons.prems by (simp add: r_def guarded_segments)
  show ?case
  proof (cases seg)
    case (Plain t)
    with Cons.prems have "\<forall>c\<in>set t. c \<noteq> 0x1B \<and> c \<noteq> 0x9B" by (auto simp add: list_all_iff)
    then show ?thesis using Plain IH by (simp add: strip_plain_append r_def)
  next
    case (Csi i pre gs f)
    with Cons.prems have "supported (Csi i pre gs f)" by simp
    from firstly_csi[OF this gr]
    have "strip (raw (Csi i pre gs f) @ r) = strip r"
      by (simp add: strip_first)
    then show ?thesis using Csi IH by (simp add: r_def)
  next
    case (Osc i pre w fs)
    with Cons.prems have "supported (Osc i pre w fs)" by simp
    from firstly_osc[OF this, of r]
    have "strip (raw (Osc i pre w fs) @ r) = strip r"
      by (simp add: strip_first)
    then show ?thesis using Osc IH by (simp add: r_def)
  qed
qed

lemma replace_all_length: "length (replace_all r s) \<le> length s"
proof (induction r s rule: replace_all.induct)
  case (1 r)
  then show ?case by simp
next
  case (2 r c cs)
  show ?case
  proof (cases "ms r (c # cs)")
    case Nil
    with 2 show ?thesis by simp
  next
    case (Cons rest rs)
    with 2 show ?thesis by (cases "length rest < length (c # cs)") simp_all
  qed
qed


text \<open>
  A match that leaves \<open>t\<close> or more of the text \<open>w @ t\<close> is a match in \<open>w\<close> alone: the
  pattern does not look ahead. So what the replacement deletes is, as a whole, a
  match of the pattern, and the result is the text without the deleted stretches.
\<close>

lemma ms_restrict:
  "r \<in> set (ms rx s) \<Longrightarrow> s = w @ t \<Longrightarrow> length t \<le> length r
     \<Longrightarrow> \<exists>v. r = v @ t \<and> v \<in> set (ms rx w)"
proof (induction rx s arbitrary: r w rule: ms.induct)
  case (1 s)
  then show ?case by simp
next
  case (2 rs)
  then show ?case by simp
next
  case (3 rs c cs)
  from "3.prems"(1) have c: "in_cls rs c" and r: "r = cs" by (simp_all split: if_splits)
  from "3.prems"(2,3) r obtain w' where w: "w = c # w'" and cs: "cs = w' @ t"
    by (cases w) auto
  show ?case using c r w cs by simp
next
  case (4 a b s)
  from "4.prems"(1) obtain r1 where r1: "r1 \<in> set (ms a s)" and r: "r \<in> set (ms b r1)"
    by auto
  have "length t \<le> length r1" using ms_length[OF r] "4.prems"(3) by simp
  from "4.IH"(1)[OF r1 "4.prems"(2) this] obtain v1 where v1: "r1 = v1 @ t" "v1 \<in> set (ms a w)"
    by blast
  from "4.IH"(2)[OF r1 r v1(1) "4.prems"(3)] obtain v where v: "r = v @ t" "v \<in> set (ms b v1)"
    by blast
  show ?case using v1 v by auto
next
  case (5 a b s)
  from "5.prems"(1) have "r \<in> set (ms a s) \<or> r \<in> set (ms b s)" by simp
  then show ?case
    using "5.IH"(1)[OF _ "5.prems"(2,3)] "5.IH"(2)[OF _ "5.prems"(2,3)] by auto
next
  case (6 a s)
  from "6.prems"(1) have "(r \<in> set (ms a s) \<and> length r < length s) \<or> r = s" by auto
  then show ?case
  proof
    assume a: "r \<in> set (ms a s) \<and> length r < length s"
    from "6.IH"[OF conjunct1[OF a] "6.prems"(2,3)] obtain v where v: "r = v @ t" "v \<in> set (ms a w)"
      by blast
    with a "6.prems"(2) have "length v < length w" by simp
    with v show ?thesis by auto
  next
    assume "r = s"
    with "6.prems"(2) show ?thesis by simp
  qed
next
  case (7 a s)
  from "7.prems"(1) have "r = s \<or>
      (\<exists>r1\<in>set (ms a s). r \<in> set (if length r1 < length s then ms (Star a) r1 else []))"
    by (subst (asm) ms.simps(7)) auto
  then consider "r = s"
    | r1 where "r1 \<in> set (ms a s)" "length r1 < length s" "r \<in> set (ms (Star a) r1)"
    by (metis empty_iff empty_set)
  then show ?case
  proof cases
    case 1
    with "7.prems"(2) show ?thesis by (subst ms.simps(7)) simp
  next
    case 2
    have "length t \<le> length r1" using ms_length[OF 2(3)] "7.prems"(3) by simp
    from "7.IH"(1)[OF 2(1) "7.prems"(2) this] obtain v1 where v1: "r1 = v1 @ t" "v1 \<in> set (ms a w)"
      by blast
    from "7.IH"(2)[OF 2 v1(1) "7.prems"(3)] obtain v where v: "r = v @ t" "v \<in> set (ms (Star a) v1)"
      by blast
    have "length v1 < length w" using 2(2) v1(1) "7.prems"(2) by simp
    with v1 v have "v \<in> set (ms (Star a) w)"
      by (subst ms.simps(7)) auto
    with v show ?thesis by blast
  qed
qed

lemma ms_whole_match:
  assumes "rest \<in> set (ms rx s)" and "length rest < length s"
  shows "\<exists>m. s = m @ rest \<and> matches rx m"
proof -
  from ms_consumed[OF assms(1)] obtain m where m: "s = m @ rest" by blast
  from ms_restrict[OF assms(1) m] obtain v where "rest = v @ rest" "v \<in> set (ms rx m)"
    by auto
  then have "[] \<in> set (ms rx m)" by simp
  moreover from m assms(2) have "m \<noteq> []" by auto
  ultimately show ?thesis using m by (auto simp add: matches_def)
qed

lemma replace_all_pieces:
  "\<exists>ps. s = concat (map original ps) \<and> replace_all rx s = concat (map remaining ps)
        \<and> list_all (deletes rx) ps"
proof (induction rx s rule: replace_all.induct)
  case (1 r)
  have "[] = concat (map original []) \<and> replace_all r [] = concat (map remaining [])
        \<and> list_all (deletes r) []" by simp
  then show ?case by blast
next
  case (2 r c cs)
  have keep: ?case if ps: "\<exists>ps. cs = concat (map original ps)
        \<and> replace_all r cs = concat (map remaining ps) \<and> list_all (deletes r) ps"
      and eq: "replace_all r (c # cs) = c # replace_all r cs"
  proof -
    from ps obtain ps where "cs = concat (map original ps)"
        "replace_all r cs = concat (map remaining ps)" "list_all (deletes r) ps" by blast
    then have "c # cs = concat (map original (Kept c # ps))
        \<and> replace_all r (c # cs) = concat (map remaining (Kept c # ps))
        \<and> list_all (deletes r) (Kept c # ps)"
      using eq by simp
    then show ?thesis by blast
  qed
  show ?case
  proof (cases "ms r (c # cs)")
    case Nil
    with 2 keep show ?thesis by simp
  next
    case (Cons rest rs)
    show ?thesis
    proof (cases "length rest < length (c # cs)")
      case True
      from "2.IH"(2)[OF Cons True] obtain ps where ps: "rest = concat (map original ps)"
        "replace_all r rest = concat (map remaining ps)" "list_all (deletes r) ps" by blast
      have "rest \<in> set (ms r (c # cs))" by (simp add: Cons)
      from ms_whole_match[OF this True] obtain m where m: "c # cs = m @ rest" "matches r m"
        by blast
      have "replace_all r (c # cs) = replace_all r rest"
        using Cons True by simp
      then have "c # cs = concat (map original (Deleted m # ps))
        \<and> replace_all r (c # cs) = concat (map remaining (Deleted m # ps))
        \<and> list_all (deletes r) (Deleted m # ps)"
        using ps m by simp
      then show ?thesis by blast
    next
      case False
      with 2 Cons keep show ?thesis by simp
    qed
  qed
qed

lemma remaining_subseq: "subseq (concat (map remaining ps)) (concat (map original ps))"
proof (induction ps)
  case Nil
  then show ?case by simp
next
  case (Cons p ps)
  then show ?case by (cases p) (simp_all add: subseq_drop_many)
qed

lemma strip_pieces:
  "\<exists>ps. s = concat (map original ps) \<and> strip s = concat (map remaining ps)
        \<and> list_all (deletes ansiRegex) ps"
  unfolding strip_def by (rule replace_all_pieces)

lemma strip_subseq: "subseq (strip s) s"
  using strip_pieces[of s] remaining_subseq by metis

lemma matches_ansiRegex_start:
  "matches ansiRegex m \<Longrightarrow> hd m = 0x1B \<or> hd m = 0x9B"
  by (cases m) (auto simp add: matches_def ansiRegex_def in_cls_start split: if_splits)

text \<open>
  Claim C7, as amended. \<open>strip\<close> only deletes characters: for every text, the result
  is the text without some stretches (a subsequence of it, never longer), every
  deleted stretch is as a whole a non-empty match of the pattern, and a match begins
  with ESC or U+009B, so a text without ESC and U+009B is returned as it is. For a
  text made of segments the pattern is written
  for (plain text without ESC, U+009B and BEL; \<open>Csi\<close> sequences of up to four-digit
  parameter groups with a final character of the pattern's class; BEL-terminated
  \<open>Osc\<close> sequences of an alphanumeric word and fields of the pattern's text class),
  \<open>strip\<close> returns exactly the plain parts, so the visible length is the sum of their
  lengths; and a non-empty text of escape segments only has visible length 0. The
  function returns a new value; its argument is not changed.
\<close>

theorem strip_removes_supported:
  "(list_all supported segs \<longrightarrow>
        strip (concat (map raw segs)) = concat (map visible segs)
      \<and> visibleLength (concat (map raw segs)) = (\<Sum>seg\<leftarrow>segs. int (length (visible seg)))
      \<and> (segs \<noteq> [] \<and> list_all is_escape segs \<longrightarrow>
           concat (map raw segs) \<noteq> [] \<and> visibleLength (concat (map raw segs)) = 0))
     \<and> length (strip s) \<le> length s
     \<and> ((\<forall>c\<in>set s. c \<noteq> 0x1B \<and> c \<noteq> 0x9B) \<longrightarrow> strip s = s)
     \<and> subseq (strip s) s
     \<and> (\<exists>ps. s = concat (map original ps) \<and> strip s = concat (map remaining ps)
              \<and> list_all (deletes ansiRegex) ps)
     \<and> (matches ansiRegex m \<longrightarrow> hd m = 0x1B \<or> hd m = 0x9B)"
proof -
  have family: "strip (concat (map raw segs)) = concat (map visible segs)
      \<and> visibleLength (concat (map raw segs)) = (\<Sum>seg\<leftarrow>segs. int (length (visible seg)))
      \<and> (segs \<noteq> [] \<and> list_all is_escape segs \<longrightarrow>
           concat (map raw segs) \<noteq> [] \<and> visibleLength (concat (map raw segs)) = 0)"
    if sup: "list_all supported segs"
  proof -
    have a: "strip (concat (map raw segs)) = concat (map visible segs)"
      using sup by (rule strip_supported)
    have "int (length (concat (map visible segs))) = (\<Sum>seg\<leftarrow>segs. int (length (visible seg)))"
      by (induction segs) simp_all
    then have b: "visibleLength (concat (map raw segs)) = (\<Sum>seg\<leftarrow>segs. int (length (visible seg)))"
      by (simp add: visibleLength_def a)
    have c: "concat (map raw segs) \<noteq> [] \<and> visibleLength (concat (map raw segs)) = 0"
      if "segs \<noteq> []" and esc: "list_all is_escape segs"
    proof -
      have v: "visible seg = []" and r: "raw seg \<noteq> []" if "is_escape seg" for seg
        using that by (cases seg; simp)+
      from esc have "concat (map visible segs) = []"
        by (induction segs) (simp_all add: v)
      moreover from that obtain seg where "seg \<in> set segs" and "is_escape seg"
        by (cases segs) auto
      then have "concat (map raw segs) \<noteq> []" using r by auto
      ultimately show ?thesis by (simp add: visibleLength_def a)
    qed
    from a b c show ?thesis by blast
  qed
  have d: "length (strip s) \<le> length s"
    by (simp add: strip_def replace_all_length)
  have e: "(\<forall>c\<in>set s. c \<noteq> 0x1B \<and> c \<noteq> 0x9B) \<longrightarrow> strip s = s"
    using strip_plain by blast
  have f: "matches ansiRegex m \<longrightarrow> hd m = 0x1B \<or> hd m = 0x9B"
    using matches_ansiRegex_start by blast
  from family d e f strip_subseq[of s] strip_pieces[of s] show ?thesis by blast
qed


theorem strip_removes_supported_witness:
  "strip (0x1B # js ''[1;31mhi'' @ 0x1B # js ''[0m'') = js ''hi''
   \<and> visibleLength (0x1B # js ''[1;31mhi'' @ 0x1B # js ''[0m'') = 2
   \<and> 0x9B # js ''2J'' @ 0x1B # js '']0;t'' @ [0x07] \<noteq> []
   \<and> visibleLength (0x9B # js ''2J'' @ 0x1B # js '']0;t'' @ [0x07]) = 0
   \<and> strip (js ''plain'') = js ''plain''
   \<and> subseq (strip (js ''plain'')) (js ''plain'')
   \<and> matches ansiRegex (0x1B # js ''[0m'')
   \<and> hd (0x1B # js ''[0m'') = 0x1B"
proof -
  define m :: nat where "m = of_char CHR ''m''"
  define segs1 where "segs1 = [Csi 0x1B (js ''['') [js ''1'', js ''31''] m, Plain (js ''hi''),
                                Csi 0x1B (js ''['') [js ''0''] m]"
  define segs2 where "segs2 = [Csi 0x9B [] [js ''2''] (of_char CHR ''J''),
                                Osc 0x1B (js '']'') (js ''0'') [js ''t'']]"
  have cls: "in_cls start_chars 0x1B" "in_cls start_chars 0x9B" "in_cls prefix_chars 91"
    "in_cls prefix_chars 93" "in_cls digit_chars 48" "in_cls digit_chars 49"
    "in_cls digit_chars 50" "in_cls digit_chars 51" "in_cls final_chars 109"
    "in_cls final_chars 74" "\<not> in_cls digit_chars 109" "\<not> in_cls digit_chars 74"
    "in_cls alnum_chars 48" "in_cls text_chars 116"
    by (simp_all add: in_cls_def start_chars_def prefix_chars_def digit_chars_def final_chars_def
        alnum_chars_def text_chars_def chars_def)
  have h1: "list_all supported segs1"
    by (simp add: segs1_def m_def js_def cls)
  have h2: "list_all supported segs2"
    by (simp add: segs2_def js_def cls)
  have r1: "concat (map raw segs1) = 0x1B # js ''[1;31mhi'' @ 0x1B # js ''[0m''"
    by (simp add: segs1_def m_def js_def)
  have r2: "concat (map raw segs2) = 0x9B # js ''2J'' @ 0x1B # js '']0;t'' @ [0x07]"
    by (simp add: segs2_def js_def)
  have plain: "\<forall>c\<in>set (js ''plain''). c \<noteq> 0x1B \<and> c \<noteq> 0x9B"
    by (simp add: js_def)
  have mt: "matches ansiRegex (0x1B # js ''[0m'')"
    by code_simp
  have t1: "strip (0x1B # js ''[1;31mhi'' @ 0x1B # js ''[0m'') = js ''hi''
      \<and> visibleLength (0x1B # js ''[1;31mhi'' @ 0x1B # js ''[0m'') = 2
      \<and> strip (js ''plain'') = js ''plain''
      \<and> subseq (strip (js ''plain'')) (js ''plain'')
      \<and> hd (0x1B # js ''[0m'') = 0x1B"
    using strip_removes_supported[of segs1 "js ''plain''" "0x1B # js ''[0m''"] h1 plain mt
    unfolding r1 by (simp add: segs1_def) (simp add: js_def)
  have t2: "0x9B # js ''2J'' @ 0x1B # js '']0;t'' @ [0x07] \<noteq> []
      \<and> visibleLength (0x9B # js ''2J'' @ 0x1B # js '']0;t'' @ [0x07]) = 0"
    using strip_removes_supported[of segs2 "[]" "[]"] h2
    unfolding r2 by (simp add: segs2_def)
  from t1 t2 mt show ?thesis by blast
qed

text \<open>
  As stated for any CSI or OSC sequence the claim fails. \<open>ESC [ 5 d\<close> is a control
  sequence (line position absolute), but \<open>d\<close> is not in the pattern's class of final
  characters: the pattern matches \<open>ESC [ 5\<close> and \<open>d\<close> stays, so a text of one escape
  sequence has visible length 1. The command \<open>ESC ] 0 ; h i ST\<close>, terminated by ST
  and not by BEL, loses \<open>ESC ] 0 ; h\<close> only.
\<close>

theorem strip_counterexample:
  "ecma48_csi (0x1B # js ''[5d'')
   \<and> strip (0x1B # js ''[5d'') = js ''d''
   \<and> visibleLength (0x1B # js ''[5d'') = 1
   \<and> ecma48_osc (0x1B # js '']0;hi'' @ [0x1B, 0x5C])
   \<and> strip (0x1B # js '']0;hi'' @ [0x1B, 0x5C]) = js ''i'' @ [0x1B, 0x5C]"
  by code_simp

section \<open>Properties of the box layout\<close>
















lemma in_cls_sgr:
  "in_cls start_chars 0x1B" "in_cls prefix_chars 91" "in_cls final_chars 109"
  "\<not> in_cls digit_chars 109" "in_cls digit_chars 48" "in_cls digit_chars 50"
  "in_cls digit_chars 51" "in_cls digit_chars 57"
  by (simp_all add: in_cls_def start_chars_def prefix_chars_def digit_chars_def final_chars_def
      chars_def)

lemma sgr_Cons: "sgr n = 0x1B # 91 # js n @ [109]"
  by (simp add: sgr_def js_def)

lemma replaceClose_plain: "0x1B \<notin> set t \<Longrightarrow> replaceClose (sgr n) rp t = t"
  by (induction t) (auto simp add: sgr_Cons)

lemma formatter_plain:
  "0x1B \<notin> set t \<Longrightarrow> formatter (sgr a) (sgr b) rp t = sgr a @ t @ sgr b"
proof -
  assume a: "0x1B \<notin> set t"
  then have "0x1B \<notin> set (drop (length (sgr a)) t)"
    by (meson in_set_dropD)
  then show ?thesis by (simp add: formatter_def replaceClose_plain)
qed


lemma groups_ok_sgr: "groups_ok [js ''2'']" "groups_ok [js ''22'']" "groups_ok [js ''90'']"
  "groups_ok [js ''39'']"
  by (simp_all add: js_def in_cls_sgr)






section \<open>Properties of the live log\<close>

lemma ceil_div_real:
  "b \<noteq> 0 \<Longrightarrow> ceil_div a b = Some \<lceil>real_of_int a / real_of_int b\<rceil>"
  by (simp add: ceil_div_def ceiling_divide_eq_div)

lemma frameHeight_foldl:
  assumes "w \<noteq> 0"
  shows "foldl (\<lambda>height line.
              case (height, ceil_div (int (length line)) w) of
                (Some h, Some k) \<Rightarrow> Some (h + k)
              | _ \<Rightarrow> None) (Some a) ls
        = Some (a + (\<Sum>line\<leftarrow>ls. \<lceil>real (length line) / real_of_int w\<rceil>))"
  using assms by (induction ls arbitrary: a) (simp_all add: ceil_div_real add.assoc)

lemma frameHeight_sum:
  assumes "w \<noteq> 0"
  shows "frameHeight w fr
     = Some (\<Sum>line\<leftarrow>split_nl fr. \<lceil>real (length line) / real_of_int w\<rceil>)"
  unfolding frameHeight_def frameHeight_foldl[OF assms] by simp

lemma frameHeight_zero_width: "frameHeight 0 fr = None"
proof -
  have "foldl (\<lambda>height line.
              case (height, ceil_div (int (length line)) 0) of
                (Some h, Some k) \<Rightarrow> Some (h + k)
              | _ \<Rightarrow> None) None ls = None" for ls :: "jsstring list"
    by (induction ls) simp_all
  moreover have "split_nl fr \<noteq> []" by (cases fr) simp_all
  ultimately show ?thesis
    by (cases "split_nl fr") (simp_all add: frameHeight_def ceil_div_def)
qed

lemma split_nl_no_newline: "nl \<notin> set s \<Longrightarrow> split_nl s = [s]"
  by (induction s) auto

lemma split_nl_append_nl:
  "nl \<notin> set s \<Longrightarrow> split_nl (s @ nl # r) = s # split_nl r"
  by (induction s) auto

lemma js_slice_all: "js_slice xs 0 (int (length xs)) = xs"
  by (simp add: js_slice_def)

lemma print_no_parser:
  "print col u None 0 t =
     t\<lparr>frame := concat (map (\<lambda>line. BAR col u @ js ''  '' @ line @ [nl]) (split_nl (output_buf t))),
       stdout := stdout t @ [Write (dim col (concat (map (\<lambda>line. BAR col u @ js ''  '' @ line @ [nl])
                   (split_nl (output_buf t)))))]\<rparr>"
proof -
  have "foldl (\<lambda>fr line. fr @ BAR col u @ js ''  '' @ line @ [nl]) a ls
      = a @ concat (map (\<lambda>line. BAR col u @ js ''  '' @ line @ [nl]) ls)" for a ls
    by (induction ls arbitrary: a) simp_all
  then show ?thesis by (simp add: print_def Let_def js_slice_all)
qed

lemma clear_empty: "frame t = [] \<Longrightarrow> clear columns e t = t"
  by (simp add: clear_def)

lemma clear_nonempty:
  assumes "frame t \<noteq> []" and "columns \<noteq> 0"
  shows "clear columns e t = t\<lparr>stdout := stdout t @
      [CursorUp (Some ((\<Sum>line\<leftarrow>split_nl (frame t). \<lceil>real (length line) / real_of_int columns\<rceil>)
                       + (if e then 1 else 0))),
       EraseDown None]\<rparr>"
  using assms by (simp add: clear_def frameHeight_sum)



lemma set_text_frame:
  "frame (set_text col u None c d t)
     = concat (map (\<lambda>line. BAR col u @ js ''  '' @ line @ [nl]) (split_nl (output_buf t @ d)))"
  by (simp add: set_text_def print_no_parser clear_def Let_def)



text \<open>
  Claim C10. A task log that has not rendered anything has the empty frame, and
  \<open>clear\<close> returns at once: it changes nothing and writes nothing. So after the two
  heading lines, the first append writes only the new frame, \<open>fail\<close> writes only the
  error line and the frame, \<open>success\<close> writes only the success line; no cursor
  movement and no erasure reaches the output stream.
\<close>

theorem taskLog_first_clear:
  "clear columns eraseTitle (taskLog col u title) = taskLog col u title
   \<and> stdout (set_text col u parser columns data (taskLog col u title))
       = stdout (taskLog col u title)
         @ [Write (dim col (frame (set_text col u parser columns data (taskLog col u title))))]
   \<and> stdout (fail col u parser columns msg (taskLog col u title))
       = stdout (taskLog col u title)
         @ [Write (ERROR col u @ js ''  '' @ msg @ [nl]),
            Write (dim col (frame (fail col u parser columns msg (taskLog col u title))))]
   \<and> stdout (success col u columns msg (taskLog col u title))
       = stdout (taskLog col u title) @ [Write (SUCCESS col u @ js ''  '' @ msg @ [nl])]
   \<and> stdout (taskLog col u title)
       = [Write (BAR col u @ [nl]), Write (ACTIVE col u @ js ''  '' @ title @ [nl])]"
proof -
  have fr: "frame (taskLog col u title) = []" by (simp add: taskLog_def)
  have cl: "clear c e (taskLog col u title) = taskLog col u title" for c e
    using fr by (rule clear_empty)
  show ?thesis
    by (simp add: cl set_text_def fail_def success_def print_def Let_def) (simp add: taskLog_def)
qed




text \<open>
  \<open>clear\<close> measures \<open>line.length\<close>, which counts the escape bytes of a styled bar as
  well: with the bar wrapped in SGR sequences, three characters of text make a line
  of length 15 and \<open>clear\<close> moves up two rows at ten columns, though only six
  characters are visible.
\<close>

lemma clear_counts_escape_bytes:
  "(let t = set_text sgr_colors True None 10 (js ''abc'') (taskLog sgr_colors True (js ''t''));
        line = BAR sgr_colors True @ js ''  abc''
    in frame t = line @ [nl]
     \<and> length line = 15
     \<and> visibleLength line = 6
     \<and> clear 10 False t = t\<lparr>stdout := stdout t @ [CursorUp (Some 2), EraseDown None]\<rparr>)"
proof -
  define t where "t = set_text sgr_colors True None 10 (js ''abc'') (taskLog sgr_colors True (js ''t''))"
  define line where "line = BAR sgr_colors True @ js ''  abc''"
  have bar: "BAR sgr_colors True = sgr ''2'' @ [0x2502] @ sgr ''22''"
    by (simp add: BAR_def sgr_colors_def S_BAR_def s_glyph_def formatter_plain)
  have "list_all supported [Csi 0x1B [91] [js ''2''] 109, Plain [0x2502],
                            Csi 0x1B [91] [js ''22''] 109, Plain (js ''  abc'')]"
    using groups_ok_sgr(1,2) by (simp add: in_cls_sgr js_def)
  from strip_supported[OF this]
  have "strip line = [0x2502] @ js ''  abc''"
    by (simp add: line_def bar sgr_Cons js_def)
  then have vis: "visibleLength line = 6"
    by (simp add: visibleLength_def js_def)
  have len: "length line = 15"
    by (simp add: line_def bar sgr_Cons js_def)
  have nonl: "nl \<notin> set line"
    by (simp add: line_def bar sgr_Cons js_def nl_def)
  have "nl \<notin> set (js ''abc'')" by (simp add: js_def nl_def)
  then have fr: "frame t = line @ [nl]"
    unfolding t_def set_text_frame
    by (simp add: taskLog_def split_nl_no_newline line_def) (simp add: js_def)
  have split: "split_nl (frame t) = [line, []]"
    unfolding fr using split_nl_append_nl[OF nonl, of "[]"] by simp
  have "frame t \<noteq> []" by (simp add: fr)
  from clear_nonempty[OF this, of 10 False]
  have cl: "clear 10 False t = t\<lparr>stdout := stdout t @ [CursorUp (Some 2), EraseDown None]\<rparr>"
    unfolding split by (simp add: len)
  show ?thesis
    unfolding Let_def t_def[symmetric] line_def[symmetric]
    using fr len vis cl by blast
qed

section \<open>Properties of the spinner and its lifecycle guard\<close>

lemma removeListener_append:
  "l \<in> set hs \<Longrightarrow> removeListener l (ls @ hs) = ls @ removeListener l hs"
  by (simp add: removeListener_def remove1_append)

lemma clear_hooks_list: "foldl (\<lambda>ls l. removeListener l ls) (ls @ hooks) hooks = ls"
  by (simp add: hooks_def removeListener_def)

lemma tick_fields:
  "unblock (tick col u tid s) = unblock s"
  "loop (tick col u tid s) = loop s"
  "isSpinnerActive (tick col u tid s) = isSpinnerActive s"
  "listeners (tick col u tid s) = listeners s"
  "input_blocked (tick col u tid s) = input_blocked s"
  by (simp_all add: tick_def Let_def split: option.splits prod.splits)

lemma act_fields:
  "unblock (act col u s a) = unblock s"
  "loop (act col u s a) = loop s"
  "isSpinnerActive (act col u s a) = isSpinnerActive s"
  "listeners (act col u s a) = listeners s"
  "input_blocked (act col u s a) = input_blocked s"
  by (cases a; simp add: tick_fields message_def)+

lemma foldl_act_fields:
  "unblock (foldl (act col u) s acts) = unblock s"
  "loop (foldl (act col u) s acts) = loop s"
  "isSpinnerActive (foldl (act col u) s acts) = isSpinnerActive s"
  "listeners (foldl (act col u) s acts) = listeners s"
  "input_blocked (foldl (act col u) s acts) = input_blocked s"
  by (induction acts arbitrary: s; simp add: act_fields)+

lemma start_fields:
  "unblock (start col u msg s0)"
  "loop (start col u msg s0) = Some (next_interval s0)"
  "isSpinnerActive (start col u msg s0)"
  "listeners (start col u msg s0) = listeners s0 @ hooks"
  "input_blocked (start col u msg s0)"
  by (simp_all add: start_def Let_def block_def registerHooks_def)

lemma after_start_fields:
  "unblock (after_start col u msg acts s0)"
  "loop (after_start col u msg acts s0) = Some (next_interval s0)"
  "isSpinnerActive (after_start col u msg acts s0)"
  "listeners (after_start col u msg acts s0) = listeners s0 @ hooks"
  "input_blocked (after_start col u msg acts s0)"
  by (simp_all add: after_start_def foldl_act_fields start_fields)

lemma stop_running:
  assumes "unblock s"
  shows "stop col u msg code s =
     Inr (s\<lparr>message_var := msg, isSpinnerActive := False,
            intervals := (case loop s of None \<Rightarrow> intervals s
                          | Some tid \<Rightarrow> filter (\<lambda>(i, st). i \<noteq> tid) (intervals s)),
            written := written s @ [CursorMove (- 999) 0, EraseDown (Some 1),
                                    Write (step_glyph col u code @ js ''  '' @ msg @ [nl])],
            listeners := foldl (\<lambda>ls l. removeListener l ls) (listeners s) hooks,
            input_blocked := False\<rparr>)"
  using assms
  by (cases "loop s") (simp_all add: stop_def Let_def clearInterval_def clearHooks_def call_unblock_def)

lemma map_of_filter_neq: "map_of (filter (\<lambda>(i, st). i \<noteq> tid) xs) tid = None"
  by (induction xs) auto

lemma call_handler_eq:
  "call_handler col u h arg s =
     (if isSpinnerActive s then stop col u (exit_message (exit_code h arg)) (exit_code h arg) s
      else Inr s)"
  by (cases h) (simp_all add: errorEventHandler_def signalEventHandler_def handleExit_def
      exit_message_def Let_def)

lemma run_handlers_inactive:
  "\<not> isSpinnerActive s \<Longrightarrow> run_handlers col u hs arg s = Inr s"
  by (induction hs) (simp_all add: call_handler_eq)

lemma stop_inactive: "stop col u msg code s = Inr s' \<Longrightarrow> \<not> isSpinnerActive s'"
  by (auto simp add: stop_def Let_def call_unblock_def clearInterval_def clearHooks_def
      split: if_splits option.splits)

lemma run_handlers_first:
  "run_handlers col u (h # hs) arg s = call_handler col u h arg s"
proof (cases "call_handler col u h arg s")
  case (Inl e)
  then show ?thesis by simp
next
  case (Inr s')
  have "\<not> isSpinnerActive s'"
    using Inr by (auto simp add: call_handler_eq dest: stop_inactive split: if_splits)
  then show ?thesis using Inr by (simp add: run_handlers_inactive)
qed

lemma emit_inactive: "\<not> isSpinnerActive s \<Longrightarrow> emit col u ev arg s = Inr s"
  by (simp add: emit_def run_handlers_inactive)

lemma emit_hooks:
  assumes "listeners s = hooks"
  shows "emit col u ev arg s =
     call_handler col u (case ev of UncaughtExceptionMonitor \<Rightarrow> ErrorEventHandler
        | UnhandledRejection \<Rightarrow> ErrorEventHandler | SIGINT \<Rightarrow> SignalEventHandler
        | SIGTERM \<Rightarrow> SignalEventHandler | Exit \<Rightarrow> HandleExit) arg s"
  by (cases ev) (simp_all add: emit_def assms hooks_def run_handlers_first del: run_handlers.simps)

text \<open>
  Claim C8. For a running spinner (started from any state, after any ticks and
  \<open>message\<close> calls) and any message and exit code, \<open>stop\<close> returns normally; the spinner
  is no longer active; its interval is cancelled, so a later tick of it does nothing;
  the output gains the move to the line start, the erasure and one final line, whose
  glyph is the submit glyph in green for code 0, the cancel glyph in red for code 1
  and the error glyph in red for every other code; the five hooks registered by
  \<open>start\<close> are removed, leaving the listeners as they were before; and the input
  blocking acquired by \<open>start\<close> is released.
\<close>

theorem spinner_stop:
  "(let s = after_start col u m0 acts s0; tid = next_interval s0
    in \<exists>s'. stop col u msg code s = Inr s'
         \<and> \<not> isSpinnerActive s'
         \<and> loop s = Some tid
         \<and> map_of (intervals s') tid = None
         \<and> tick col u tid s' = s'
         \<and> written s' = written s @
              [CursorMove (- 999) 0, EraseDown (Some 1),
               Write ((if code = 0 then green col (S_STEP_SUBMIT u)
                       else if code = 1 then red col (S_STEP_CANCEL u)
                       else red col (S_STEP_ERROR u)) @ js ''  '' @ msg @ [nl])]
         \<and> listeners s = listeners s0 @ hooks
         \<and> listeners s' = listeners s0
         \<and> input_blocked s
         \<and> \<not> input_blocked s')"
proof -
  define s where "s = after_start col u m0 acts s0"
  define tid where "tid = next_interval s0"
  define s' where "s' = s\<lparr>message_var := msg, isSpinnerActive := False,
            intervals := filter (\<lambda>(i, st). i \<noteq> tid) (intervals s),
            written := written s @ [CursorMove (- 999) 0, EraseDown (Some 1),
                                    Write (step_glyph col u code @ js ''  '' @ msg @ [nl])],
            listeners := foldl (\<lambda>ls l. removeListener l ls) (listeners s) hooks,
            input_blocked := False\<rparr>"
  have un: "unblock s" and lp: "loop s = Some tid" and ls: "listeners s = listeners s0 @ hooks"
    and bl: "input_blocked s"
    by (simp_all add: s_def tid_def after_start_fields)
  have st: "stop col u msg code s = Inr s'"
    by (simp add: stop_running[OF un] lp s'_def)
  have gone: "map_of (intervals s') tid = None"
    by (simp add: s'_def map_of_filter_neq)
  then have tk: "tick col u tid s' = s'"
    by (simp add: tick_def)
  have wr: "written s' = written s @
              [CursorMove (- 999) 0, EraseDown (Some 1),
               Write ((if code = 0 then green col (S_STEP_SUBMIT u)
                       else if code = 1 then red col (S_STEP_CANCEL u)
                       else red col (S_STEP_ERROR u)) @ js ''  '' @ msg @ [nl])]"
    by (simp add: s'_def step_glyph_def)
  have ls': "listeners s' = listeners s0"
    by (simp add: s'_def ls clear_hooks_list)
  have "\<not> isSpinnerActive s'" and "\<not> input_blocked s'"
    by (simp_all add: s'_def)
  with st lp gone tk wr ls ls' bl show ?thesis
    unfolding Let_def s_def[symmetric] tid_def[symmetric] by blast
qed

theorem spinner_stop_witness:
  "\<exists>s'. stop plain_colors False (js ''done'') 0
        (after_start plain_colors False (js ''work...'') [Tick 0, Message (js ''more''), Tick 0]
           initial_spinner) = Inr s'
     \<and> \<not> isSpinnerActive s' \<and> map_of (intervals s') 0 = None \<and> listeners s' = []
     \<and> \<not> input_blocked s'
     \<and> written s' =
          [Write (js ''|'' @ [nl]),
           CursorMove (- 999) 0, EraseDown (Some 1), Write ([0x2022] @ js ''  work''),
           CursorMove (- 999) 0, EraseDown (Some 1), Write (js ''o  more''),
           CursorMove (- 999) 0, EraseDown (Some 1), Write (js ''o  done'' @ [nl])]"
proof -
  have before: "written (after_start plain_colors False (js ''work...'')
                  [Tick 0, Message (js ''more''), Tick 0] initial_spinner)
      = [Write (js ''|'' @ [nl]),
         CursorMove (- 999) 0, EraseDown (Some 1), Write ([0x2022] @ js ''  work''),
         CursorMove (- 999) 0, EraseDown (Some 1), Write (js ''o  more'')]"
    by code_simp
  have glyph: "green plain_colors (S_STEP_SUBMIT False) = js ''o''"
    by (simp add: plain_colors_def S_STEP_SUBMIT_def s_glyph_def)
  have init: "next_interval initial_spinner = 0" "listeners initial_spinner = []"
    by (simp_all add: initial_spinner_def)
  show ?thesis
    using spinner_stop[where col = plain_colors and u = False and ?m0.0 = "js ''work...''"
      and acts = "[Tick 0, Message (js ''more''), Tick 0]" and ?s0.0 = initial_spinner
      and msg = "js ''done''" and code = 0]
    unfolding Let_def before init glyph by (auto simp add: js_def)
qed

text \<open>
  Claim C9. Every handler of the guard calls \<open>stop\<close> exactly when the spinner is active
  and otherwise leaves the state alone; the error handler passes code 2, the signal
  handler code 1, the exit handler the exit code it receives. For a running spinner,
  started in a process without listeners of its own: the events of an uncaught
  exception and of an unhandled rejection end in \<open>stop\<close> with code 2, SIGINT and
  SIGTERM in \<open>stop\<close> with code 1, the exit event in \<open>stop\<close> with the exit code. After a
  \<open>stop\<close> that returned normally no listener is left, no event reaches the spinner,
  and even a direct call of a handler changes nothing.
\<close>

theorem lifecycle_guard:
  assumes "listeners s0 = []"
  shows "(let s = after_start col u m0 acts s0
    in isSpinnerActive s
     \<and> emit col u UncaughtExceptionMonitor arg s = stop col u (js ''Something went wrong'') 2 s
     \<and> emit col u UnhandledRejection arg s = stop col u (js ''Something went wrong'') 2 s
     \<and> emit col u SIGINT arg s = stop col u (js ''Canceled'') 1 s
     \<and> emit col u SIGTERM arg s = stop col u (js ''Canceled'') 1 s
     \<and> emit col u Exit arg s = stop col u (exit_message arg) arg s
     \<and> (\<exists>s'. stop col u msg code s = Inr s'
            \<and> listeners s' = []
            \<and> emit col u ev arg s' = Inr s'
            \<and> call_handler col u h arg s' = Inr s'))
   \<and> call_handler col u h arg x =
       (if isSpinnerActive x
        then stop col u (exit_message (exit_code h arg)) (exit_code h arg) x
        else Inr x)"
proof -
  define s where "s = after_start col u m0 acts s0"
  have act: "isSpinnerActive s" and un: "unblock s" and ls: "listeners s = hooks"
    using assms by (simp_all add: s_def after_start_fields)
  have e1: "emit col u UncaughtExceptionMonitor arg s = stop col u (js ''Something went wrong'') 2 s"
    and e2: "emit col u UnhandledRejection arg s = stop col u (js ''Something went wrong'') 2 s"
    and e3: "emit col u SIGINT arg s = stop col u (js ''Canceled'') 1 s"
    and e4: "emit col u SIGTERM arg s = stop col u (js ''Canceled'') 1 s"
    and e5: "emit col u Exit arg s = stop col u (exit_message arg) arg s"
    by (simp_all add: emit_hooks[OF ls] call_handler_eq act exit_message_def)
  obtain s' where st: "stop col u msg code s = Inr s'"
    using stop_running[OF un] by blast
  have inactive: "\<not> isSpinnerActive s'" using st by (rule stop_inactive)
  have "listeners s' = foldl (\<lambda>ls l. removeListener l ls) ([] @ hooks) hooks"
    using st unfolding stop_running[OF un] by (auto simp add: ls)
  then have ls': "listeners s' = []"
    by (simp only: clear_hooks_list)
  have after: "\<exists>s'. stop col u msg code s = Inr s'
            \<and> listeners s' = []
            \<and> emit col u ev arg s' = Inr s'
            \<and> call_handler col u h arg s' = Inr s'"
    using st ls' inactive by (auto simp add: emit_inactive call_handler_eq)
  show ?thesis
    unfolding Let_def s_def[symmetric]
    using act e1 e2 e3 e4 e5 after call_handler_eq[of col u h arg x] by blast
qed

theorem lifecycle_guard_witness:
  "listeners initial_spinner = []
   \<and> emit plain_colors False SIGINT 0
        (after_start plain_colors False (js ''work'') [Tick 0] initial_spinner)
     = Inr \<lparr>unblock = True, loop = Some 0, isSpinnerActive = False, message_var = js ''Canceled'',
           intervals = [], next_interval = 1, listeners = [], input_blocked = False,
           written = [Write (js ''|'' @ [nl]),
                      CursorMove (- 999) 0, EraseDown (Some 1), Write ([0x2022] @ js ''  work''),
                      CursorMove (- 999) 0, EraseDown (Some 1), Write (js ''x  Canceled'' @ [nl])]\<rparr>
   \<and> call_handler plain_colors False ErrorEventHandler 0 initial_spinner = Inr initial_spinner"
proof -
  have h: "listeners initial_spinner = []" by (simp add: initial_spinner_def)
  have stopped: "stop plain_colors False (js ''Canceled'') 1
        (after_start plain_colors False (js ''work'') [Tick 0] initial_spinner)
     = Inr \<lparr>unblock = True, loop = Some 0, isSpinnerActive = False, message_var = js ''Canceled'',
           intervals = [], next_interval = 1, listeners = [], input_blocked = False,
           written = [Write (js ''|'' @ [nl]),
                      CursorMove (- 999) 0, EraseDown (Some 1), Write ([0x2022] @ js ''  work''),
                      CursorMove (- 999) 0, EraseDown (Some 1), Write (js ''x  Canceled'' @ [nl])]\<rparr>"
    by code_simp
  have idle: "\<not> isSpinnerActive initial_spinner" by (simp add: initial_spinner_def)
  show ?thesis
    using h stopped idle
      lifecycle_guard[OF h, where col = plain_colors and u = False and ?m0.0 = "js ''work''"
        and acts = "[Tick 0]" and arg = 0 and h = ErrorEventHandler and x = initial_spinner]
    by (simp add: Let_def)
qed

end
